theory Spec2Isabelle
  imports Complex_Main "HOL-Library.Log_Nat"
begin

section \<open>Questions API: data model\<close>

text \<open>
  The service of \<^verbatim>\<open>main.py\<close> keeps its questions in one MongoDB collection,
  \<^verbatim>\<open>app.mongodb.questions\<close>. A document of the collection has the three fields the
  code writes in \<^verbatim>\<open>create_question\<close>: \<^verbatim>\<open>_id\<close>, \<^verbatim>\<open>text\<close> and \<^verbatim>\<open>created_at\<close>.

  An \<^verbatim>\<open>ObjectId\<close> is represented by the string that \<^verbatim>\<open>str\<close> gives for it (two
  identifiers are equal exactly when their strings are). A \<^verbatim>\<open>datetime\<close> is a number
  of ticks. A similarity, a Python \<^verbatim>\<open>float\<close>, is modelled by the real number it
  denotes: order comparisons of floats are exact on these values. The arithmetic on
  floats (the product and the rounding of the score) is modelled as IEEE double
  arithmetic, see the semantic matcher.
\<close>

datatype ObjectId = Oid string

fun str :: "ObjectId \<Rightarrow> string" where
  "str (Oid h) = h"

type_synonym datetime = nat

record question_doc =
  oid :: ObjectId
  qtext :: string
  created_at :: datetime

text \<open>
  The collection is the list of its documents in natural (insertion) order, the order
  in which \<^verbatim>\<open>find({})\<close> enumerates them.
\<close>

type_synonym collection = "question_doc list"

datatype error =
    IndexError
  | InvalidId
  | DuplicateKeyError
  | HTTPException nat string

section \<open>The store operations the code calls\<close>

definition count_documents :: "collection \<Rightarrow> nat" where
  "count_documents db = length db"

text \<open>\<^verbatim>\<open>insert_one\<close>: the driver gives the document a new \<^verbatim>\<open>_id\<close> (here the argument
  \<open>new_id\<close>); the collection's unique index on \<^verbatim>\<open>_id\<close> refuses an identifier that
  is already there.\<close>

definition insert_one :: "collection \<Rightarrow> ObjectId \<Rightarrow> string \<times> datetime \<Rightarrow> error + (collection \<times> ObjectId)" where
  "insert_one db new_id question_data =
     (if new_id \<in> set (map oid db) then Inl DuplicateKeyError
      else Inr (db @ [\<lparr>oid = new_id, qtext = fst question_data, created_at = snd question_data\<rparr>], new_id))"

text \<open>\<^verbatim>\<open>delete_one({"_id": i})\<close> removes the first matching document and reports
  \<^verbatim>\<open>deleted_count\<close>.\<close>

fun delete_one :: "collection \<Rightarrow> ObjectId \<Rightarrow> collection \<times> nat" where
  "delete_one [] i = ([], 0)"
| "delete_one (q # db) i =
     (if oid q = i then (db, 1)
      else (q # fst (delete_one db i), snd (delete_one db i)))"

text \<open>\<^verbatim>\<open>delete_many({"_id": {"$in": ids}})\<close> removes every document whose identifier is
  in \<open>ids\<close>.\<close>

definition delete_many :: "collection \<Rightarrow> ObjectId list \<Rightarrow> collection \<times> nat" where
  "delete_many db ids =
     (filter (\<lambda>q. oid q \<notin> set ids) db, length (filter (\<lambda>q. oid q \<in> set ids) db))"

section \<open>Duplicate removal at startup\<close>

text \<open>
  The aggregation pipeline of \<^verbatim>\<open>startup_db_client\<close>:
  \<^verbatim>\<open>
  {"$group": {"_id": "$text", "duplicate_ids": {"$addToSet": "$_id"}, "count": {"$sum": 1}}},
  {"$match": {"count": {"$gt": 1}}}
  \<close>
  \<^verbatim>\<open>$addToSet\<close> collects the distinct values of the group into an array whose order
  MongoDB leaves unspecified. The order the store chooses is the parameter \<open>ord\<close>: the
  array is \<open>ord\<close> applied to the distinct identifiers of the group in insertion order.
  The order of the groups is unspecified as well; they are listed here by the first
  occurrence of their text, and the collection that the loop leaves does not depend on
  that order (lemma \<open>collapse_loop_any_order\<close>).
\<close>

record group_doc =
  group_key :: string
  duplicate_ids :: "ObjectId list"
  cnt :: nat

definition records_with :: "collection \<Rightarrow> string \<Rightarrow> collection" where
  "records_with db t = filter (\<lambda>q. qtext q = t) db"

definition addToSet :: "(ObjectId list \<Rightarrow> ObjectId list) \<Rightarrow> ObjectId list \<Rightarrow> ObjectId list" where
  "addToSet ord xs = ord (remdups xs)"

definition group_stage :: "(ObjectId list \<Rightarrow> ObjectId list) \<Rightarrow> collection \<Rightarrow> group_doc list" where
  "group_stage ord db =
     map (\<lambda>t. \<lparr>group_key = t,
               duplicate_ids = addToSet ord (map oid (records_with db t)),
               cnt = length (records_with db t)\<rparr>)
         (rev (remdups (rev (map qtext db))))"

definition aggregate :: "(ObjectId list \<Rightarrow> ObjectId list) \<Rightarrow> collection \<Rightarrow> group_doc list" where
  "aggregate ord db = filter (\<lambda>g. 1 < cnt g) (group_stage ord db)"

text \<open>
  The loop over the cursor. Each iteration pops index 0 of \<^verbatim>\<open>duplicate_ids\<close>
  (\<^verbatim>\<open>IndexError\<close> on an empty list) and issues one \<^verbatim>\<open>delete_many\<close> for the rest.
  The second component of the state records the argument of every \<^verbatim>\<open>delete_many\<close>
  call, in the order the calls are made.
\<close>

fun collapse_loop ::
  "group_doc list \<Rightarrow> collection \<times> ObjectId list list \<Rightarrow> error + (collection \<times> ObjectId list list)" where
  "collapse_loop [] st = Inr st"
| "collapse_loop (doc # cursor) (db, calls) =
     (case duplicate_ids doc of
        [] \<Rightarrow> Inl IndexError
      | keep # rest \<Rightarrow> collapse_loop cursor (fst (delete_many db rest), calls @ [rest]))"

definition startup_db_client ::
  "(ObjectId list \<Rightarrow> ObjectId list) \<Rightarrow> collection \<Rightarrow> error + (collection \<times> ObjectId list list)" where
  "startup_db_client ord db = collapse_loop (aggregate ord db) (db, [])"

text \<open>What the store may do with the order of a \<^verbatim>\<open>$addToSet\<close> array: any arrangement
  of the distinct values.\<close>

definition set_order :: "(ObjectId list \<Rightarrow> ObjectId list) \<Rightarrow> bool" where
  "set_order ord \<longleftrightarrow> (\<forall>xs. distinct xs \<longrightarrow> distinct (ord xs) \<and> set (ord xs) = set xs)"

text \<open>The identifier at index 0 of the group's array: the one the loop does not pass
  to \<^verbatim>\<open>delete_many\<close>.\<close>

definition kept :: "(ObjectId list \<Rightarrow> ObjectId list) \<Rightarrow> collection \<Rightarrow> string \<Rightarrow> ObjectId" where
  "kept ord db t = hd (addToSet ord (map oid (records_with db t)))"

text \<open>The texts that occur in more than one document, each once.\<close>

definition duplicate_texts :: "collection \<Rightarrow> string list" where
  "duplicate_texts db =
     filter (\<lambda>t. 1 < length (records_with db t)) (rev (remdups (rev (map qtext db))))"

section \<open>Creating, deleting and counting questions\<close>

text \<open>
  Modelled from the spec: the response models of \<^verbatim>\<open>models.py\<close> (\<^verbatim>\<open>Question\<close>,
  \<^verbatim>\<open>SimilarityResponse\<close>, \<^verbatim>\<open>WordCheckResponse\<close>) are not among the sources. They
  are records with the fields of the spec's data model, which are the fields that
  \<^verbatim>\<open>main.py\<close> passes to their constructors.
\<close>

record Question =
  q_id :: string
  q_text :: string
  q_created_at :: datetime

record 'm SimilarityResponse =
  similar_questions :: "'m list"
  similarity_count :: nat

record WordCheckResponse =
  match_count :: nat

text \<open>\<^verbatim>\<open>create_question\<close> reads the document count and then inserts; \<open>utcnow\<close> is the
  value of \<^verbatim>\<open>datetime.utcnow()\<close> and \<open>new_id\<close> the identifier the driver generates.\<close>

definition create_question ::
  "collection \<Rightarrow> ObjectId \<Rightarrow> datetime \<Rightarrow> string \<Rightarrow> error + (collection \<times> Question)" where
  "create_question db new_id utcnow question_text =
     (let count = count_documents db;
          question_data = (question_text, utcnow)
      in case insert_one db new_id question_data of
           Inl e \<Rightarrow> Inl e
         | Inr (db', inserted_id) \<Rightarrow>
             Inr (db', \<lparr>q_id = str inserted_id, q_text = question_text,
                       q_created_at = snd question_data\<rparr>))"

text \<open>\<^verbatim>\<open>delete_question\<close>: \<open>mk_oid\<close> is the constructor \<^verbatim>\<open>ObjectId(question_id)\<close> of
  the bson library, which raises \<^verbatim>\<open>InvalidId\<close> (here \<open>None\<close>) on a string that is not
  an identifier.\<close>

definition delete_question ::
  "(string \<Rightarrow> ObjectId option) \<Rightarrow> collection \<Rightarrow> string \<Rightarrow> (error + string) \<times> collection" where
  "delete_question mk_oid db question_id =
     (case mk_oid question_id of
        None \<Rightarrow> (Inl InvalidId, db)
      | Some i \<Rightarrow>
          (let result = delete_one db i
           in if snd result = 0
              then (Inl (HTTPException 404 ''Question not found''), fst result)
              else (Inr ''Question deleted successfully'', fst result)))"

definition get_questions :: "collection \<Rightarrow> nat" where
  "get_questions db = count_documents db"

section \<open>Semantic matcher\<close>

text \<open>
  The score is computed in Python's \<^verbatim>\<open>float\<close>, IEEE 754 double precision with
  rounding to nearest, ties to even. A \<^verbatim>\<open>float\<close> value is a real number or an
  infinity (a similarity is a real number here, so no NaN arises).

  \<open>expo x\<close> is the binary exponent of a positive real: \<open>2 ^ expo x \<le> x < 2 ^ (expo x + 1)\<close>.
  \<open>to_double x\<close> is the double nearest to \<open>x\<close>: a multiple of the unit
  \<open>2 ^ (e - 52)\<close>, where \<open>e\<close> is the exponent of \<open>x\<close> and at least \<open>-1022\<close>
  (below that the numbers are subnormal); a result that reaches \<open>2 ^ 1024\<close> is an
  infinity.
\<close>

datatype pyfloat = Finite real | PosInf | NegInf

definition round_half_even :: "real \<Rightarrow> int" where
  "round_half_even y =
     (let f = \<lfloor>y\<rfloor>; d = y - of_int f
      in if d < 1 / 2 then f
         else if 1 / 2 < d then f + 1
         else if even f then f else f + 1)"

definition expo :: "real \<Rightarrow> int" where
  "expo x =
     (if 1 \<le> x then bitlen \<lfloor>x\<rfloor> - 1
      else (let k = bitlen \<lfloor>1 / x\<rfloor> - 1 in if x * 2 powi k = 1 then - k else - k - 1))"

definition to_double :: "real \<Rightarrow> pyfloat" where
  "to_double x =
     (if x = 0 then Finite 0
      else let a = \<bar>x\<bar>;
               e = max (expo a) (- 1022);
               u = 2 powi (e - 52);
               y = of_int (round_half_even (a / u)) * u
           in if 2 powi 1024 \<le> y then (if 0 < x then PosInf else NegInf)
              else Finite (if 0 < x then y else - y))"

text \<open>The product \<^verbatim>\<open>x * y\<close> of two finite floats: the exact product, rounded.\<close>

definition float_mul :: "real \<Rightarrow> real \<Rightarrow> pyfloat" where
  "float_mul x y = to_double (x * y)"

text \<open>
  \<^verbatim>\<open>round(x, ndigits)\<close> on a float, as CPython computes it: an infinity is returned
  as it is, and so is \<open>x\<close> when \<open>ndigits\<close> is above 323; otherwise the exact value of
  \<open>x\<close> is rounded to \<open>ndigits\<close> decimal places, a tie going to the even digit, and the
  decimal is converted to the nearest double.
\<close>

fun py_round :: "pyfloat \<Rightarrow> nat \<Rightarrow> pyfloat" where
  "py_round (Finite x) ndigits =
     (if 323 < ndigits then Finite x
      else to_double (of_int (round_half_even (x * 10 ^ ndigits)) / 10 ^ ndigits))"
| "py_round PosInf ndigits = PosInf"
| "py_round NegInf ndigits = NegInf"

record semantic_match =
  m_id :: string
  m_text :: string
  m_created_at :: datetime
  m_score :: pyfloat

text \<open>The loop of the first \<^verbatim>\<open>check_similarity\<close>; \<open>nlp\<close> and \<open>similarity\<close> are
  spaCy's pipeline and \<^verbatim>\<open>Doc.similarity\<close>.\<close>

fun similarity_loop ::
  "(string \<Rightarrow> 'd) \<Rightarrow> ('d \<Rightarrow> 'd \<Rightarrow> real) \<Rightarrow> 'd \<Rightarrow> collection \<Rightarrow> semantic_match list
     \<Rightarrow> semantic_match list" where
  "similarity_loop nlp similarity input_doc [] similar = similar"
| "similarity_loop nlp similarity input_doc (existing_question # cursor) similar =
     (let existing_doc = nlp (qtext existing_question);
          sim = similarity input_doc existing_doc
      in if 0.7 < sim
         then similarity_loop nlp similarity input_doc cursor
                (similar @ [\<lparr>m_id = str (oid existing_question),
                              m_text = qtext existing_question,
                              m_created_at = created_at existing_question,
                              m_score = py_round (float_mul sim 100) 2\<rparr>])
         else similarity_loop nlp similarity input_doc cursor similar)"

definition check_similarity ::
  "(string \<Rightarrow> 'd) \<Rightarrow> ('d \<Rightarrow> 'd \<Rightarrow> real) \<Rightarrow> collection \<Rightarrow> string
     \<Rightarrow> semantic_match SimilarityResponse" where
  "check_similarity nlp similarity db question_text =
     (let input_doc = nlp question_text;
          similar = similarity_loop nlp similarity input_doc db []
      in \<lparr>similar_questions = similar, similarity_count = length similar\<rparr>)"

section \<open>Lexical matcher\<close>

text \<open>
  The second \<^verbatim>\<open>check_similarity\<close> (route \<^verbatim>\<open>check-similarity-2\<close>). A hit of the store's
  text search is a document with the \<^verbatim>\<open>score\<close> field that the projection asks for;
  the code reads it with \<^verbatim>\<open>doc.get("score", 0)\<close>, so the field is optional. The search
  itself, with its ranking, is the store's: the parameter \<open>text_search\<close>.
\<close>

record search_hit =
  h_id :: ObjectId
  h_text :: string
  h_created_at :: datetime
  h_score :: "real option"

record lexical_match =
  l_id :: string
  l_text :: string
  l_created_at :: datetime
  l_score :: "real option"

definition get_score :: "search_hit \<Rightarrow> real" where
  "get_score doc = (case h_score doc of None \<Rightarrow> 0 | Some s \<Rightarrow> s)"

fun lexical_loop :: "search_hit list \<Rightarrow> lexical_match list \<Rightarrow> lexical_match list" where
  "lexical_loop [] filtered_results = filtered_results"
| "lexical_loop (doc # cursor) filtered_results =
     (if 2.5 < get_score doc
      then lexical_loop cursor
             (filtered_results @ [\<lparr>l_id = str (h_id doc), l_text = h_text doc,
                                     l_created_at = h_created_at doc, l_score = h_score doc\<rparr>])
      else lexical_loop cursor filtered_results)"

definition check_similarity_2 ::
  "(collection \<Rightarrow> string \<Rightarrow> search_hit list) \<Rightarrow> collection \<Rightarrow> string
     \<Rightarrow> lexical_match SimilarityResponse" where
  "check_similarity_2 text_search db question_text =
     (let cursor = text_search db question_text;
          filtered_results = lexical_loop cursor []
      in \<lparr>similar_questions = filtered_results, similarity_count = length filtered_results\<rparr>)"

text \<open>A search returns documents of the collection only.\<close>

definition searches_collection :: "(collection \<Rightarrow> string \<Rightarrow> search_hit list) \<Rightarrow> bool" where
  "searches_collection text_search \<longleftrightarrow>
     (\<forall>db t. h_id ` set (text_search db t) \<subseteq> oid ` set db)"

section \<open>Word-overlap counter\<close>

text \<open>
  \<^verbatim>\<open>str.split()\<close> without arguments cuts the string at runs of whitespace and yields no
  empty token. Which characters are whitespace, and what \<^verbatim>\<open>str.lower()\<close> makes of a
  token, is Python's Unicode data: the parameters \<open>isspace\<close> and \<open>lower\<close>.
\<close>

fun split_from :: "(char \<Rightarrow> bool) \<Rightarrow> string \<Rightarrow> string \<Rightarrow> string list" where
  "split_from isspace word [] = (if word = [] then [] else [word])"
| "split_from isspace word (c # cs) =
     (if isspace c
      then (if word = [] then split_from isspace [] cs else word # split_from isspace [] cs)
      else split_from isspace (word @ [c]) cs)"

definition py_split :: "(char \<Rightarrow> bool) \<Rightarrow> string \<Rightarrow> string list" where
  "py_split isspace s = split_from isspace [] s"

definition words :: "(char \<Rightarrow> bool) \<Rightarrow> (string \<Rightarrow> string) \<Rightarrow> string \<Rightarrow> string set" where
  "words isspace lower s = set (map lower (py_split isspace s))"

fun words_loop ::
  "(char \<Rightarrow> bool) \<Rightarrow> (string \<Rightarrow> string) \<Rightarrow> string set \<Rightarrow> collection \<Rightarrow> nat \<Rightarrow> nat" where
  "words_loop isspace lower input_words [] count = count"
| "words_loop isspace lower input_words (existing_question # cursor) count =
     (let question_words = words isspace lower (qtext existing_question);
          common_words = input_words \<inter> question_words
      in if common_words \<noteq> {}
         then words_loop isspace lower input_words cursor (count + 1)
         else words_loop isspace lower input_words cursor count)"

definition check_words ::
  "(char \<Rightarrow> bool) \<Rightarrow> (string \<Rightarrow> string) \<Rightarrow> collection \<Rightarrow> string \<Rightarrow> WordCheckResponse" where
  "check_words isspace lower db request_text =
     (let input_words = words isspace lower request_text
      in \<lparr>match_count = words_loop isspace lower input_words db 0\<rparr>)"

text \<open>The ASCII part of Python's tables, for running the counter on examples.\<close>

definition ascii_isspace :: "char \<Rightarrow> bool" where
  "ascii_isspace c \<longleftrightarrow> c \<in> set [CHR '' '', CHR 0x09, CHR 0x0A, CHR 0x0B, CHR 0x0C, CHR 0x0D,
                                   CHR 0x1C, CHR 0x1D, CHR 0x1E, CHR 0x1F]"

definition ascii_lower_char :: "char \<Rightarrow> char" where
  "ascii_lower_char c =
     (let n = (of_char c :: nat) in if 65 \<le> n \<and> n \<le> 90 then char_of (n + 32) else c)"

definition ascii_lower :: "string \<Rightarrow> string" where
  "ascii_lower s = map ascii_lower_char s"

text \<open>
  What the spec calls a whitespace-delimited token of a string \<open>s\<close>: a non-empty piece
  of \<open>s\<close> without whitespace that is bounded on each side by whitespace or by the end
  of the string.
\<close>

definition is_token :: "(char \<Rightarrow> bool) \<Rightarrow> string \<Rightarrow> string \<Rightarrow> bool" where
  "is_token isspace s w \<longleftrightarrow>
     w \<noteq> [] \<and> (\<forall>c \<in> set w. \<not> isspace c) \<and>
     (\<exists>a b. s = a @ w @ b \<and> (a = [] \<or> isspace (last a)) \<and> (b = [] \<or> isspace (hd b)))"

text \<open>
  The constructor \<^verbatim>\<open>ObjectId(s)\<close> of the bson library on a string, as its documentation
  has it: 24 hexadecimal digits give the identifier, any other string raises
  \<^verbatim>\<open>InvalidId\<close>. It serves the examples; \<^verbatim>\<open>delete_question\<close> takes the constructor
  as a parameter.
\<close>

definition is_hexdigit :: "char \<Rightarrow> bool" where
  "is_hexdigit c \<longleftrightarrow> c \<in> set ''0123456789abcdefABCDEF''"

definition ObjectId_of_str :: "string \<Rightarrow> ObjectId option" where
  "ObjectId_of_str s =
     (if length s = 24 \<and> list_all is_hexdigit s then Some (Oid (ascii_lower s)) else None)"

section \<open>Properties of the duplicate removal\<close>

lemma collapse_loop_filter:
  "\<forall>g\<in>set cursor. duplicate_ids g \<noteq> [] \<Longrightarrow>
   collapse_loop cursor (db, calls) =
     Inr (filter (\<lambda>q. oid q \<notin> (\<Union>g\<in>set cursor. set (tl (duplicate_ids g)))) db,
          calls @ map (\<lambda>g. tl (duplicate_ids g)) cursor)"
proof (induction cursor arbitrary: db calls)
  case Nil
  then show ?case by simp
next
  case (Cons doc cursor)
  from Cons.prems obtain keep rest where d: "duplicate_ids doc = keep # rest"
    by (cases "duplicate_ids doc") auto
  from Cons.prems have "\<forall>g\<in>set cursor. duplicate_ids g \<noteq> []" by simp
  from Cons.IH [OF this] d show ?case
    by (simp add: delete_many_def conj_commute)
qed

lemma collapse_loop_any_order:
  assumes "\<forall>g\<in>set cursor. duplicate_ids g \<noteq> []" and "set cursor' = set cursor"
  shows "map_sum id fst (collapse_loop cursor' (db, calls'))
           = map_sum id fst (collapse_loop cursor (db, calls))"
proof -
  from assms have "\<forall>g\<in>set cursor'. duplicate_ids g \<noteq> []" by simp
  from collapse_loop_filter [OF this] collapse_loop_filter [OF assms(1)] assms(2)
  show ?thesis by simp
qed

lemma texts_set: "set (rev (remdups (rev (map qtext db)))) = qtext ` set db"
  by simp

lemma texts_distinct: "distinct (rev (remdups (rev (map qtext db))))"
  by simp

lemma records_with_set: "set (records_with db t) = {q \<in> set db. qtext q = t}"
  by (auto simp: records_with_def)

lemma ids_distinct: "distinct (map oid db) \<Longrightarrow> distinct (map oid (records_with db t))"
  by (simp add: records_with_def distinct_map_filter)

lemma group_ids:
  assumes "distinct (map oid db)" "set_order ord"
  shows "distinct (addToSet ord (map oid (records_with db t)))"
    and "set (addToSet ord (map oid (records_with db t))) = oid ` {q \<in> set db. qtext q = t}"
  using assms ids_distinct [of db t]
  by (auto simp: addToSet_def set_order_def records_with_set distinct_remdups_id)

lemma in_aggregate:
  "g \<in> set (aggregate ord db) \<longleftrightarrow>
     (\<exists>t \<in> qtext ` set db. 1 < length (records_with db t) \<and>
        g = \<lparr>group_key = t, duplicate_ids = addToSet ord (map oid (records_with db t)),
             cnt = length (records_with db t)\<rparr>)"
  by (auto simp: aggregate_def group_stage_def)

lemma filter_unique:
  assumes "distinct (map f xs)" "h \<in> f ` set xs"
  shows "\<exists>q. filter (\<lambda>x. f x = h) xs = [q] \<and> q \<in> set xs \<and> f q = h"
  using assms
proof (induction xs)
  case Nil
  then show ?case by simp
next
  case (Cons x xs)
  show ?case
  proof (cases "f x = h")
    case True
    have "\<And>y. y \<in> set xs \<Longrightarrow> f y \<noteq> h"
      using Cons.prems(1) True by (metis distinct.simps(2) imageI list.simps(9) set_map)
    then have "filter (\<lambda>y. f y = h) xs = []"
      by (simp add: filter_empty_conv)
    with True show ?thesis by simp
  next
    case False
    with Cons show ?thesis by auto
  qed
qed


lemma marked_iff:
  assumes d: "distinct (map oid db)" and so: "set_order ord" and q: "q \<in> set db"
  shows "oid q \<in> (\<Union>g\<in>set (aggregate ord db). set (tl (duplicate_ids g))) \<longleftrightarrow>
         oid q \<noteq> kept ord db (qtext q)"
proof -
  let ?t = "qtext q"
  let ?ids = "addToSet ord (map oid (records_with db ?t))"
  have dist: "distinct ?ids" and st: "set ?ids = oid ` {q' \<in> set db. qtext q' = ?t}"
    using group_ids [OF d so] by auto
  from q st have mem: "oid q \<in> set ?ids" by auto
  then obtain k rest where ids: "?ids = k # rest" by (cases ?ids) auto
  have inj: "\<And>q'. q' \<in> set db \<Longrightarrow> oid q' = oid q \<Longrightarrow> q' = q"
    using d q by (meson distinct_map inj_onD)
  show ?thesis
  proof
    assume "oid q \<in> (\<Union>g\<in>set (aggregate ord db). set (tl (duplicate_ids g)))"
    then obtain g where g: "g \<in> set (aggregate ord db)" "oid q \<in> set (tl (duplicate_ids g))"
      by blast
    from g(1) obtain t where t: "t \<in> qtext ` set db" "1 < length (records_with db t)"
        and gt: "g = \<lparr>group_key = t, duplicate_ids = addToSet ord (map oid (records_with db t)),
             cnt = length (records_with db t)\<rparr>"
      unfolding in_aggregate by blast
    from g(2) gt have m: "oid q \<in> set (tl (addToSet ord (map oid (records_with db t))))"
      by simp
    from m have "oid q \<in> set (addToSet ord (map oid (records_with db t)))"
      by (metis list.sel(2) list.set_sel(2))
    with group_ids(2) [OF d so, of t] obtain q' where "q' \<in> set db" "qtext q' = t" "oid q' = oid q"
      by auto
    with inj have "t = ?t" by auto
    with m ids dist show "oid q \<noteq> kept ord db (qtext q)"
      by (auto simp: kept_def)
  next
    assume ne: "oid q \<noteq> kept ord db (qtext q)"
    with ids mem have r: "oid q \<in> set (tl ?ids)" by (auto simp: kept_def)
    then have "rest \<noteq> []" using ids by auto
    then have "1 < length ?ids" using ids by (cases rest) auto
    moreover have "length ?ids = length (records_with db ?t)"
    proof -
      have "set ?ids = set (map oid (records_with db ?t))"
        using st by (simp add: records_with_set)
      then have "card (set ?ids) = card (set (map oid (records_with db ?t)))"
        by simp
      then show ?thesis
        using distinct_card [OF dist] distinct_card [OF ids_distinct [OF d, of ?t]] by simp
    qed
    ultimately have len: "1 < length (records_with db ?t)" by simp
    let ?g = "\<lparr>group_key = ?t, duplicate_ids = ?ids, cnt = length (records_with db ?t)\<rparr>"
    have "?g \<in> set (aggregate ord db)"
      unfolding in_aggregate using q len by blast
    moreover have "oid q \<in> set (tl (duplicate_ids ?g))" using r by simp
    ultimately show "oid q \<in> (\<Union>g\<in>set (aggregate ord db). set (tl (duplicate_ids g)))"
      by (rule UN_I)
  qed
qed

lemma aggregate_nonempty_ids:
  assumes "distinct (map oid db)" "set_order ord" "g \<in> set (aggregate ord db)"
  shows "duplicate_ids g \<noteq> []"
proof -
  from assms(3) obtain t where t: "t \<in> qtext ` set db"
      and gt: "g = \<lparr>group_key = t, duplicate_ids = addToSet ord (map oid (records_with db t)),
             cnt = length (records_with db t)\<rparr>"
    unfolding in_aggregate by blast
  from gt have g: "duplicate_ids g = addToSet ord (map oid (records_with db t))"
    by simp
  from t group_ids(2) [OF assms(1,2), of t] have "set (duplicate_ids g) \<noteq> {}"
    unfolding g by auto
  then show ?thesis by auto
qed

lemma startup_result:
  assumes d: "distinct (map oid db)" and so: "set_order ord"
  shows "startup_db_client ord db =
     Inr (filter (\<lambda>q. oid q = kept ord db (qtext q)) db,
          map (\<lambda>g. tl (duplicate_ids g)) (aggregate ord db))"
proof -
  have ne: "\<forall>g\<in>set (aggregate ord db). duplicate_ids g \<noteq> []"
    using aggregate_nonempty_ids [OF d so] by blast
  have "filter (\<lambda>q. oid q \<notin> (\<Union>g\<in>set (aggregate ord db). set (tl (duplicate_ids g)))) db
        = filter (\<lambda>q. oid q = kept ord db (qtext q)) db"
    by (rule filter_cong [OF refl]) (use marked_iff [OF d so] in blast)
  with collapse_loop_filter [OF ne, of db "[]"] show ?thesis
    by (simp add: startup_db_client_def)
qed

lemma kept_mem:
  assumes d: "distinct (map oid db)" and so: "set_order ord" and t: "t \<in> qtext ` set db"
  shows "kept ord db t \<in> oid ` set (records_with db t)"
proof -
  let ?ids = "addToSet ord (map oid (records_with db t))"
  from t group_ids(2) [OF d so, of t] have "set ?ids \<noteq> {}" by auto
  then have "hd ?ids \<in> set ?ids" by auto
  with group_ids(2) [OF d so, of t] show ?thesis
    by (simp add: kept_def records_with_set)
qed

lemma survivors_of_text:
  assumes d: "distinct (map oid db)" and so: "set_order ord" and t: "t \<in> qtext ` set db"
  shows "\<exists>q. records_with (filter (\<lambda>q. oid q = kept ord db (qtext q)) db) t = [q]
            \<and> q \<in> set db \<and> qtext q = t \<and> oid q = kept ord db t"
proof -
  have eq: "records_with (filter (\<lambda>q. oid q = kept ord db (qtext q)) db) t
        = filter (\<lambda>q. oid q = kept ord db t) (records_with db t)"
    by (auto simp: records_with_def intro: filter_cong)
  from filter_unique [OF ids_distinct [OF d, of t] kept_mem [OF d so t]]
  obtain q where "filter (\<lambda>x. oid x = kept ord db t) (records_with db t) = [q]"
     "q \<in> set (records_with db t)" "oid q = kept ord db t" by blast
  with eq show ?thesis by (auto simp: records_with_set)
qed

lemma startup_subset:
  "set (filter (\<lambda>q. oid q = kept ord db (qtext q)) db) \<subseteq> set db"
  by auto

lemma aggregate_duplicate_texts:
  "aggregate ord db =
     map (\<lambda>t. \<lparr>group_key = t, duplicate_ids = addToSet ord (map oid (records_with db t)),
               cnt = length (records_with db t)\<rparr>) (duplicate_texts db)"
  by (simp add: aggregate_def group_stage_def duplicate_texts_def filter_map o_def)

lemma duplicate_texts_mem:
  "t \<in> set (duplicate_texts db) \<longleftrightarrow> t \<in> qtext ` set db \<and> 1 < length (records_with db t)"
  by (auto simp: duplicate_texts_def)

lemma set_tl_distinct:
  "distinct xs \<Longrightarrow> xs \<noteq> [] \<Longrightarrow> set (tl xs) = set xs - {hd xs}"
  by (cases xs) auto

subsection \<open>C1\<close>

text \<open>
  C1. Claim: after the duplicate removal exactly one record per distinct text remains,
  and it is the first-inserted one. The first half holds. The survivor, however, is the
  record whose identifier stands at index 0 of the \<^verbatim>\<open>$addToSet\<close> array, and the
  store chooses the order of that array. Where the store lists the identifiers of the
  two records of a group in the reverse of insertion order, the second-inserted record
  survives.
\<close>

theorem collapse_first_inserted_counterexample:
  "set_order rev \<and>
   startup_db_client rev
     [\<lparr>oid = Oid ''a1'', qtext = ''What is a black hole?'', created_at = 1\<rparr>,
      \<lparr>oid = Oid ''a2'', qtext = ''What is a black hole?'', created_at = 2\<rparr>]
   = Inr ([\<lparr>oid = Oid ''a2'', qtext = ''What is a black hole?'', created_at = 2\<rparr>],
          [[Oid ''a1'']])"
  by (simp add: set_order_def startup_db_client_def aggregate_def group_stage_def
      records_with_def addToSet_def delete_many_def)

text \<open>
  C1, as the code has it. For a collection with unique identifiers and any order of the
  \<^verbatim>\<open>$addToSet\<close> arrays: the run succeeds, keeps only records of the collection, and
  for every text of the collection exactly one record remains, the one whose identifier
  is at index 0 of the group's array. Where that identifier is the one of the
  first-inserted record of the text, the survivor is the first-inserted record.
\<close>

theorem collapse_keeps_array_head:
  assumes "distinct (map oid db)" and "set_order ord"
  shows "\<exists>db' calls. startup_db_client ord db = Inr (db', calls) \<and> set db' \<subseteq> set db \<and>
           (\<forall>t \<in> qtext ` set db. \<exists>q \<in> set db.
               records_with db' t = [q] \<and> qtext q = t \<and> oid q = kept ord db t \<and>
               (kept ord db t = oid (hd (records_with db t)) \<longrightarrow> q = hd (records_with db t)))"
proof -
  let ?db' = "filter (\<lambda>q. oid q = kept ord db (qtext q)) db"
  have "\<exists>q \<in> set db. records_with ?db' t = [q] \<and> qtext q = t \<and> oid q = kept ord db t \<and>
          (kept ord db t = oid (hd (records_with db t)) \<longrightarrow> q = hd (records_with db t))"
    if t: "t \<in> qtext ` set db" for t
  proof -
    from survivors_of_text [OF assms t] obtain q where q:
      "records_with ?db' t = [q]" "q \<in> set db" "qtext q = t" "oid q = kept ord db t"
      by blast
    have "records_with db t \<noteq> []"
      using q(2,3) by (auto simp: records_with_def filter_empty_conv)
    then have "hd (records_with db t) \<in> set db"
      using records_with_set [of db t] hd_in_set by blast
    then have "q = hd (records_with db t)" if "kept ord db t = oid (hd (records_with db t))"
      using that q(2,4) assms(1) by (metis distinct_map inj_onD)
    with q show ?thesis by blast
  qed
  with startup_result [OF assms] startup_subset [of ord db] show ?thesis
    by blast
qed

theorem collapse_keeps_array_head_witness:
  "\<exists>db' calls.
     startup_db_client id
       [\<lparr>oid = Oid ''a1'', qtext = ''What is a black hole?'', created_at = 1\<rparr>,
        \<lparr>oid = Oid ''a2'', qtext = ''What is a black hole?'', created_at = 2\<rparr>,
        \<lparr>oid = Oid ''a3'', qtext = ''How do black holes form?'', created_at = 3\<rparr>]
       = Inr (db', calls) \<and>
     records_with db' ''What is a black hole?''
       = [\<lparr>oid = Oid ''a1'', qtext = ''What is a black hole?'', created_at = 1\<rparr>]"
proof -
  let ?a = "\<lparr>oid = Oid ''a1'', qtext = ''What is a black hole?'', created_at = 1\<rparr>"
  let ?b = "\<lparr>oid = Oid ''a2'', qtext = ''What is a black hole?'', created_at = 2\<rparr>"
  let ?c = "\<lparr>oid = Oid ''a3'', qtext = ''How do black holes form?'', created_at = 3\<rparr>"
  have d: "distinct (map oid [?a, ?b, ?c])" by simp
  have so: "set_order id" by (simp add: set_order_def)
  have k: "kept id [?a, ?b, ?c] ''What is a black hole?'' = Oid ''a1''"
    by (simp add: kept_def addToSet_def records_with_def)
  have h: "hd (records_with [?a, ?b, ?c] ''What is a black hole?'') = ?a"
    by (simp add: records_with_def)
  from collapse_keeps_array_head [OF d so] obtain db' calls where r:
    "startup_db_client id [?a, ?b, ?c] = Inr (db', calls)"
    "\<forall>t \<in> qtext ` set [?a, ?b, ?c]. \<exists>q \<in> set [?a, ?b, ?c].
               records_with db' t = [q] \<and> qtext q = t \<and> oid q = kept id [?a, ?b, ?c] t \<and>
               (kept id [?a, ?b, ?c] t = oid (hd (records_with [?a, ?b, ?c] t))
                  \<longrightarrow> q = hd (records_with [?a, ?b, ?c] t))"
    by blast
  have "''What is a black hole?'' \<in> qtext ` set [?a, ?b, ?c]" by simp
  with r(2) obtain q where
    "records_with db' ''What is a black hole?'' = [q]"
    "kept id [?a, ?b, ?c] ''What is a black hole?''
       = oid (hd (records_with [?a, ?b, ?c] ''What is a black hole?''))
     \<longrightarrow> q = hd (records_with [?a, ?b, ?c] ''What is a black hole?'')"
    by blast
  with k h have "records_with db' ''What is a black hole?'' = [?a]" by simp
  with r(1) show ?thesis by blast
qed

subsection \<open>C2\<close>

text \<open>
  C2. The duplicate removal is idempotent. For a collection with unique identifiers the
  first run succeeds with some collection \<open>db1\<close>; a second run on \<open>db1\<close>, whatever
  order the store then uses, succeeds, leaves \<open>db1\<close> as it is and issues no
  \<^verbatim>\<open>delete_many\<close> at all.
\<close>

theorem collapse_idempotent:
  assumes "distinct (map oid db)" and "set_order ord"
  shows "\<exists>db1 calls. startup_db_client ord db = Inr (db1, calls) \<and>
           startup_db_client ord' db1 = Inr (db1, [])"
proof -
  let ?db1 = "filter (\<lambda>q. oid q = kept ord db (qtext q)) db"
  have one: "length (records_with ?db1 t) \<le> 1" for t
  proof (cases "t \<in> qtext ` set db")
    case True
    from survivors_of_text [OF assms True] show ?thesis by auto
  next
    case False
    then have "records_with ?db1 t = []"
      by (auto simp: records_with_def filter_empty_conv)
    then show ?thesis by simp
  qed
  have "aggregate ord' ?db1 = []"
  proof (cases "aggregate ord' ?db1")
    case Nil
    then show ?thesis .
  next
    case (Cons g gs)
    then have "g \<in> set (aggregate ord' ?db1)" by simp
    then show ?thesis
      unfolding in_aggregate using one by (meson not_less)
  qed
  then have "startup_db_client ord' ?db1 = Inr (?db1, [])"
    by (simp add: startup_db_client_def)
  with startup_result [OF assms] show ?thesis by blast
qed

theorem collapse_idempotent_witness:
  "\<exists>db1 calls.
     startup_db_client id
       [\<lparr>oid = Oid ''a1'', qtext = ''What is a black hole?'', created_at = 1\<rparr>,
        \<lparr>oid = Oid ''a2'', qtext = ''What is a black hole?'', created_at = 2\<rparr>,
        \<lparr>oid = Oid ''a3'', qtext = ''How do black holes form?'', created_at = 3\<rparr>]
       = Inr (db1, calls) \<and>
     startup_db_client rev db1 = Inr (db1, []) \<and> length db1 = 2"
proof -
  let ?a = "\<lparr>oid = Oid ''a1'', qtext = ''What is a black hole?'', created_at = 1\<rparr>"
  let ?b = "\<lparr>oid = Oid ''a2'', qtext = ''What is a black hole?'', created_at = 2\<rparr>"
  let ?c = "\<lparr>oid = Oid ''a3'', qtext = ''How do black holes form?'', created_at = 3\<rparr>"
  have d: "distinct (map oid [?a, ?b, ?c])" by simp
  have so: "set_order id" by (simp add: set_order_def)
  have run: "startup_db_client id [?a, ?b, ?c] = Inr ([?a, ?c], [[Oid ''a2'']])"
    by (simp add: startup_db_client_def aggregate_def group_stage_def
        records_with_def addToSet_def delete_many_def)
  from collapse_idempotent [OF d so, of rev] run
  have "startup_db_client rev [?a, ?c] = Inr ([?a, ?c], [])" by auto
  with run show ?thesis by simp
qed

subsection \<open>C3\<close>

text \<open>
  C3. Claim: the deletions are one single bulk deletion that covers the marked
  identifiers of all groups. The code calls \<^verbatim>\<open>delete_many\<close> inside the loop over the
  groups: on a collection with two duplicated texts it issues two calls, one per group.
\<close>

theorem collapse_single_bulk_delete_counterexample:
  "startup_db_client id
     [\<lparr>oid = Oid ''a1'', qtext = ''What is a black hole?'', created_at = 1\<rparr>,
      \<lparr>oid = Oid ''a2'', qtext = ''How do black holes form?'', created_at = 2\<rparr>,
      \<lparr>oid = Oid ''a3'', qtext = ''What is a black hole?'', created_at = 3\<rparr>,
      \<lparr>oid = Oid ''a4'', qtext = ''How do black holes form?'', created_at = 4\<rparr>]
   = Inr ([\<lparr>oid = Oid ''a1'', qtext = ''What is a black hole?'', created_at = 1\<rparr>,
           \<lparr>oid = Oid ''a2'', qtext = ''How do black holes form?'', created_at = 2\<rparr>],
          [[Oid ''a3''], [Oid ''a4'']])"
  by (simp add: startup_db_client_def aggregate_def group_stage_def
      records_with_def addToSet_def delete_many_def)

text \<open>
  C3, as the code has it. The run issues one \<^verbatim>\<open>delete_many\<close> per duplicated text, in
  the order of the groups; the call for a text covers the identifiers of all records
  with that text except the one that is kept.
\<close>

theorem collapse_one_delete_per_group:
  assumes "distinct (map oid db)" and "set_order ord"
  shows "\<exists>db' calls. startup_db_client ord db = Inr (db', calls) \<and>
           length calls = length (duplicate_texts db) \<and>
           (\<forall>i < length calls.
              set (calls ! i) = oid ` set (records_with db (duplicate_texts db ! i))
                                 - {kept ord db (duplicate_texts db ! i)})"
proof -
  let ?calls = "map (\<lambda>g. tl (duplicate_ids g)) (aggregate ord db)"
  have len: "length ?calls = length (duplicate_texts db)"
    by (simp add: aggregate_duplicate_texts)
  have "set (?calls ! i) = oid ` set (records_with db (duplicate_texts db ! i))
                                 - {kept ord db (duplicate_texts db ! i)}"
    if i: "i < length ?calls" for i
  proof -
    let ?t = "duplicate_texts db ! i"
    let ?ids = "addToSet ord (map oid (records_with db ?t))"
    from i len have "?t \<in> set (duplicate_texts db)" by simp
    then have t: "?t \<in> qtext ` set db" by (simp add: duplicate_texts_mem)
    from i len have c: "?calls ! i = tl ?ids"
      by (simp add: aggregate_duplicate_texts)
    have dist: "distinct ?ids" and st: "set ?ids = oid ` set (records_with db ?t)"
      using group_ids [OF assms, of ?t] by (simp_all add: records_with_set)
    from t st have "?ids \<noteq> []" by (auto simp: records_with_set)
    from set_tl_distinct [OF dist this] c st show ?thesis
      by (simp add: kept_def)
  qed
  with len startup_result [OF assms] show ?thesis by blast
qed

theorem collapse_one_delete_per_group_witness:
  "\<exists>db' calls.
     startup_db_client id
       [\<lparr>oid = Oid ''a1'', qtext = ''What is a black hole?'', created_at = 1\<rparr>,
        \<lparr>oid = Oid ''a2'', qtext = ''How do black holes form?'', created_at = 2\<rparr>,
        \<lparr>oid = Oid ''a3'', qtext = ''What is a black hole?'', created_at = 3\<rparr>,
        \<lparr>oid = Oid ''a4'', qtext = ''How do black holes form?'', created_at = 4\<rparr>]
       = Inr (db', calls) \<and> length calls = 2"
proof -
  let ?db = "[\<lparr>oid = Oid ''a1'', qtext = ''What is a black hole?'', created_at = 1\<rparr>,
        \<lparr>oid = Oid ''a2'', qtext = ''How do black holes form?'', created_at = 2\<rparr>,
        \<lparr>oid = Oid ''a3'', qtext = ''What is a black hole?'', created_at = 3\<rparr>,
        \<lparr>oid = Oid ''a4'', qtext = ''How do black holes form?'', created_at = 4\<rparr>]"
  have d: "distinct (map oid ?db)" by simp
  have so: "set_order id" by (simp add: set_order_def)
  have "length (duplicate_texts ?db) = 2"
    by (simp add: duplicate_texts_def records_with_def)
  with collapse_one_delete_per_group [OF d so] show ?thesis by auto
qed

section \<open>Properties of the semantic matcher\<close>

lemma similarity_loop_filter:
  "similarity_loop nlp similarity input_doc db similar =
     similar @ map (\<lambda>q. \<lparr>m_id = str (oid q), m_text = qtext q, m_created_at = created_at q,
                          m_score = py_round (float_mul (similarity input_doc (nlp (qtext q))) 100) 2\<rparr>)
                 (filter (\<lambda>q. 0.7 < similarity input_doc (nlp (qtext q))) db)"
  by (induction db arbitrary: similar) (simp_all add: Let_def)

lemma check_similarity_filter:
  "similar_questions (check_similarity nlp similarity db t) =
     map (\<lambda>q. \<lparr>m_id = str (oid q), m_text = qtext q, m_created_at = created_at q,
                m_score = py_round (float_mul (similarity (nlp t) (nlp (qtext q))) 100) 2\<rparr>)
         (filter (\<lambda>q. 0.7 < similarity (nlp t) (nlp (qtext q))) db)"
  by (simp add: check_similarity_def Let_def similarity_loop_filter)

lemma str_inject: "str a = str b \<longleftrightarrow> a = b"
  by (cases a; cases b) simp

text \<open>Double arithmetic: exponent, rounding error, range.\<close>

lemma round_half_even_near: "\<bar>of_int (round_half_even y) - y\<bar> \<le> 1 / 2"
proof -
  have "of_int \<lfloor>y\<rfloor> \<le> y" and "y < of_int \<lfloor>y\<rfloor> + 1"
    by linarith+
  then show ?thesis
    by (auto simp: round_half_even_def Let_def)
qed

lemma bitlen_pos: "0 < n \<Longrightarrow> 1 \<le> bitlen n"
  by (simp add: bitlen_alt_def)

lemma expo_bounds:
  assumes "0 < x"
  shows "2 powi expo x \<le> x \<and> x < 2 powi (expo x + 1)"
proof (cases "1 \<le> x")
  case True
  define n where "n = \<lfloor>x\<rfloor>"
  define e where "e = bitlen n - 1"
  from True have n: "0 < n" by (simp add: n_def)
  from bitlen_pos [OF n] have e: "0 \<le> e" by (simp add: e_def)
  from bitlen_bounds [OF n] have lo: "2 ^ nat e \<le> n" and hi: "n < 2 ^ nat (e + 1)"
    by (simp_all add: e_def)
  have ex: "expo x = e" using True by (simp add: expo_def e_def n_def)
  have "(2::real) ^ nat e = of_int (2 ^ nat e)" by simp
  also have "\<dots> \<le> of_int n" using lo by (simp only: of_int_le_iff)
  also have "\<dots> \<le> x" by (simp add: n_def)
  finally have 1: "2 powi e \<le> x" using e by (simp add: power_int_nonneg_exp)
  from hi have "n + 1 \<le> 2 ^ nat (e + 1)" by simp
  then have "(of_int (n + 1) :: real) \<le> of_int (2 ^ nat (e + 1))"
    by (simp only: of_int_le_iff)
  moreover have "x < of_int (n + 1)" by (simp add: n_def)
  ultimately have "x < 2 ^ nat (e + 1)" by simp
  then have 2: "x < 2 powi (e + 1)" using e by (simp add: power_int_nonneg_exp)
  from 1 2 ex show ?thesis by simp
next
  case False
  define n where "n = \<lfloor>1 / x\<rfloor>"
  define k where "k = bitlen n - 1"
  from False assms have "1 \<le> 1 / x" by simp
  then have n: "0 < n" by (simp add: n_def)
  from bitlen_pos [OF n] have k: "0 \<le> k" by (simp add: k_def)
  from bitlen_bounds [OF n] have lo: "2 ^ nat k \<le> n" and hi: "n < 2 ^ nat (k + 1)"
    by (simp_all add: k_def)
  have "(2::real) ^ nat k = of_int (2 ^ nat k)" by simp
  also have "\<dots> \<le> of_int n" using lo by (simp only: of_int_le_iff)
  also have "\<dots> \<le> 1 / x" by (simp add: n_def)
  finally have a: "x * 2 ^ nat k \<le> 1" using assms by (simp add: field_simps)
  from hi have "n + 1 \<le> 2 ^ nat (k + 1)" by simp
  then have "(of_int (n + 1) :: real) \<le> of_int (2 ^ nat (k + 1))"
    by (simp only: of_int_le_iff)
  moreover have "1 / x < of_int (n + 1)" by (simp add: n_def)
  ultimately have "1 / x < 2 ^ nat (k + 1)" by simp
  then have b: "1 < x * 2 ^ nat (k + 1)" using assms by (simp add: field_simps)
  have pk: "(2::real) powi k = 2 ^ nat k" using k by (simp add: power_int_nonneg_exp)
  have pmk: "(2::real) powi (- k) = 1 / 2 ^ nat k"
    using pk by (simp add: power_int_minus_divide)
  have pmk1: "(2::real) powi (- k - 1) = 1 / 2 ^ nat (k + 1)"
  proof -
    have "(2::real) powi (- k - 1) = 2 powi (- (k + 1))" by simp
    also have "\<dots> = 1 / 2 powi (k + 1)" by (rule power_int_minus_divide)
    also have "\<dots> = 1 / 2 ^ nat (k + 1)" using k by (simp add: power_int_nonneg_exp)
    finally show ?thesis .
  qed
  have nk1: "(2::real) ^ nat (k + 1) = 2 * 2 ^ nat k"
    using k by (simp add: nat_add_distrib)
  show ?thesis
  proof (cases "x * 2 powi k = 1")
    case True
    then have ex: "expo x = - k" using False by (simp add: expo_def Let_def k_def n_def)
    from True pk have xe: "x = 1 / 2 ^ nat k" by (simp add: field_simps)
    have "(2::real) powi (- k + 1) = 2 powi (- k) * 2 powi 1"
      by (rule power_int_add) simp
    then have "(2::real) powi (- k + 1) = x * 2" using pmk xe by simp
    moreover have "x < x * 2" using assms by simp
    ultimately have "x < 2 powi (- k + 1)" by linarith
    with pmk xe ex show ?thesis by simp
  next
    case ne: False
    then have ex: "expo x = - k - 1" using False by (simp add: expo_def Let_def k_def n_def)
    from ne pk a have "x * 2 ^ nat k < 1" by simp
    then have "x < 1 / 2 ^ nat k" by (simp add: field_simps)
    then have u: "x < 2 powi (- k - 1 + 1)" using pmk by simp
    from b have "1 / 2 ^ nat (k + 1) < x" by (simp add: field_simps)
    then have "2 powi (- k - 1) \<le> x" using pmk1 by simp
    with u ex show ?thesis by simp
  qed
qed


lemma pow2_split: "(2::real) powi (e - 53) = 2 powi e * 2 powi (- 53)"
proof -
  have "(2::real) powi (e + (- 53)) = 2 powi e * 2 powi (- 53)"
    by (rule power_int_add) simp
  then show ?thesis by simp
qed

lemma pow2_half: "(2::real) powi (e - 52) / 2 = 2 powi (e - 53)"
proof -
  have "(2::real) powi ((e - 53) + 1) = 2 powi (e - 53) * 2 powi 1"
    by (rule power_int_add) simp
  then show ?thesis by simp
qed

lemma pow2_mono: "a \<le> b \<Longrightarrow> (2::real) powi a \<le> 2 powi b"
  by (rule power_int_increasing) simp_all

lemma pow2_less_cancel: "(2::real) powi a < 2 powi b \<Longrightarrow> a < b"
  by (rule ccontr) (use pow2_mono [of b a] in simp)

text \<open>The value of a finite result, before the sign.\<close>

lemma to_double_cases:
  assumes "x \<noteq> 0"
  defines "e \<equiv> max (expo \<bar>x\<bar>) (- 1022)"
  defines "y \<equiv> of_int (round_half_even (\<bar>x\<bar> / 2 powi (e - 52))) * 2 powi (e - 52)"
  shows "to_double x =
           (if 2 powi 1024 \<le> y then (if 0 < x then PosInf else NegInf)
            else Finite (if 0 < x then y else - y))"
  using assms(1) unfolding to_double_def e_def y_def Let_def by simp

lemma to_double_error:
  assumes "to_double x = Finite p"
  shows "\<bar>p - x\<bar> \<le> 2 powi (max (expo \<bar>x\<bar>) (- 1022) - 53)"
proof (cases "x = 0")
  case True
  with assms show ?thesis by (simp add: to_double_def)
next
  case False
  define e where "e = max (expo \<bar>x\<bar>) (- 1022)"
  define u :: real where "u = 2 powi (e - 52)"
  define m where "m = round_half_even (\<bar>x\<bar> / u)"
  have u: "0 < u" by (simp add: u_def)
  from assms to_double_cases [OF False]
  have p: "p = (if 0 < x then of_int m * u else - (of_int m * u))"
    by (simp add: e_def u_def m_def split: if_splits)
  have "\<bar>of_int m - \<bar>x\<bar> / u\<bar> \<le> 1 / 2"
    unfolding m_def by (rule round_half_even_near)
  then have "\<bar>of_int m - \<bar>x\<bar> / u\<bar> * u \<le> 1 / 2 * u"
    using u by (simp only: mult_le_cancel_right_pos)
  moreover have "\<bar>of_int m - \<bar>x\<bar> / u\<bar> * u = \<bar>of_int m * u - \<bar>x\<bar>\<bar>"
  proof -
    have "\<bar>of_int m - \<bar>x\<bar> / u\<bar> * u = \<bar>(of_int m - \<bar>x\<bar> / u) * u\<bar>"
      using u by (simp add: abs_mult)
    also have "(of_int m - \<bar>x\<bar> / u) * u = of_int m * u - \<bar>x\<bar>"
      using u by (simp add: field_simps)
    finally show ?thesis .
  qed
  ultimately have "\<bar>of_int m * u - \<bar>x\<bar>\<bar> \<le> u / 2" by simp
  moreover have "\<bar>p - x\<bar> = \<bar>of_int m * u - \<bar>x\<bar>\<bar>"
    using p False by (cases "0 < x") auto
  ultimately have "\<bar>p - x\<bar> \<le> u / 2" by simp
  then show ?thesis
    unfolding u_def pow2_half e_def .
qed

lemma to_double_rel_error:
  assumes "to_double x = Finite p" and "2 powi (- 1022) \<le> \<bar>x\<bar>"
  shows "\<bar>p - x\<bar> \<le> \<bar>x\<bar> * 2 powi (- 53)"
proof -
  have pos: "0 < \<bar>x\<bar>"
    using assms(2) zero_less_power_int [of "2::real" "- 1022"] by linarith
  from expo_bounds [OF pos] have lo: "2 powi expo \<bar>x\<bar> \<le> \<bar>x\<bar>"
    and hi: "\<bar>x\<bar> < 2 powi (expo \<bar>x\<bar> + 1)" by simp_all
  from assms(2) hi have "(2::real) powi (- 1022) < 2 powi (expo \<bar>x\<bar> + 1)" by linarith
  then have "- 1022 < expo \<bar>x\<bar> + 1" by (rule pow2_less_cancel)
  then have m: "max (expo \<bar>x\<bar>) (- 1022) = expo \<bar>x\<bar>" by simp
  from to_double_error [OF assms(1)] have "\<bar>p - x\<bar> \<le> 2 powi expo \<bar>x\<bar> * 2 powi (- 53)"
    unfolding m pow2_split .
  also have "\<dots> \<le> \<bar>x\<bar> * 2 powi (- 53)"
    using lo by (simp only: mult_le_cancel_right_pos zero_less_power_int zero_less_numeral)
  finally show ?thesis .
qed

lemma int_le_if_less_half: "(of_int m :: real) < of_int n + 1 / 2 \<Longrightarrow> m \<le> n"
proof -
  assume "(of_int m :: real) < of_int n + 1 / 2"
  then have "(of_int m :: real) < of_int (n + 1)" by simp
  then have "m < n + 1" by (simp only: of_int_less_iff)
  then show ?thesis by simp
qed

lemma int_ge_if_greater_half: "(of_int n :: real) - 1 / 2 < of_int m \<Longrightarrow> n \<le> m"
proof -
  assume "(of_int n :: real) - 1 / 2 < of_int m"
  then have "(of_int (n - 1) :: real) < of_int m" by simp
  then have "n - 1 < m" by (simp only: of_int_less_iff)
  then show ?thesis by simp
qed

lemma round_half_even_le:
  assumes "z < of_int n"
  shows "round_half_even z \<le> n"
proof -
  from round_half_even_near [of z] have "of_int (round_half_even z) \<le> z + 1 / 2"
    by linarith
  with assms have "(of_int (round_half_even z) :: real) < of_int n + 1 / 2" by linarith
  then show ?thesis by (rule int_le_if_less_half)
qed

lemma round_half_even_ge:
  assumes "of_int n \<le> z"
  shows "n \<le> round_half_even z"
proof -
  from round_half_even_near [of z] have "z - 1 / 2 \<le> of_int (round_half_even z)"
    by linarith
  with assms have "(of_int n :: real) - 1 / 2 \<le> of_int (round_half_even z)" by linarith
  then have "(of_int n :: real) - 1 / 2 < of_int (round_half_even z) + 1 / 4" by linarith
  then have "(of_int n :: real) - 1 < of_int (round_half_even z)" by linarith
  then have "(of_int (n - 1) :: real) < of_int (round_half_even z)" by simp
  then have "n - 1 < round_half_even z" by (simp only: of_int_less_iff)
  then show ?thesis by simp
qed

text \<open>The mantissa and the magnitude of the rounded value in a binade.\<close>

lemma rounded_le:
  assumes "0 < (a::real)" and "a < 2 powi (e + 1)"
  shows "of_int (round_half_even (a / 2 powi (e - 52))) * 2 powi (e - 52) \<le> (2::real) powi (e + 1)"
proof -
  define u :: real where "u = 2 powi (e - 52)"
  have u: "0 < u" by (simp add: u_def)
  have q: "(2::real) powi (e + 1) = 2 ^ 53 * u"
  proof -
    have "(2::real) powi (53 + (e - 52)) = 2 powi 53 * 2 powi (e - 52)"
      by (rule power_int_add) simp
    then show ?thesis by (simp add: u_def add.commute)
  qed
  from assms(2) have "a < 2 ^ 53 * u" unfolding q .
  then have "a / u < 2 ^ 53" using u by (simp add: field_simps)
  then have "a / u < of_int (2 ^ 53)" by simp
  then have "round_half_even (a / u) \<le> 2 ^ 53" by (rule round_half_even_le)
  then have "(of_int (round_half_even (a / u)) :: real) \<le> of_int (2 ^ 53)"
    by (simp only: of_int_le_iff)
  then have "of_int (round_half_even (a / u)) * u \<le> 2 ^ 53 * u"
    using u by simp
  then show ?thesis unfolding q u_def .
qed

lemma rounded_ge:
  assumes "2 powi e \<le> (a::real)"
  shows "(2::real) powi e \<le> of_int (round_half_even (a / 2 powi (e - 52))) * 2 powi (e - 52)"
proof -
  define u :: real where "u = 2 powi (e - 52)"
  have u: "0 < u" by (simp add: u_def)
  have q: "(2::real) powi e = 2 ^ 52 * u"
  proof -
    have "(2::real) powi (52 + (e - 52)) = 2 powi 52 * 2 powi (e - 52)"
      by (rule power_int_add) simp
    then show ?thesis by (simp add: u_def)
  qed
  from assms have "2 ^ 52 * u \<le> a" unfolding q .
  then have "2 ^ 52 \<le> a / u" using u by (simp add: field_simps)
  then have "of_int (2 ^ 52) \<le> a / u" by simp
  then have "2 ^ 52 \<le> round_half_even (a / u)" by (rule round_half_even_ge)
  then have "(of_int (2 ^ 52) :: real) \<le> of_int (round_half_even (a / u))"
    by (simp only: of_int_le_iff)
  then have "2 ^ 52 * u \<le> of_int (round_half_even (a / u)) * u"
    using u by simp
  then show ?thesis unfolding q u_def .
qed

lemma expo_less: "0 < (a::real) \<Longrightarrow> a < 2 powi n \<Longrightarrow> expo a < n"
  using expo_bounds [of a] pow2_less_cancel [of "expo a" n] by linarith

lemma below_binade_top:
  assumes "0 < a"
  shows "a < 2 powi (max (expo a) (- 1022) + 1)"
proof -
  from expo_bounds [OF assms] have "a < 2 powi (expo a + 1)" by simp
  also have "\<dots> \<le> 2 powi (max (expo a) (- 1022) + 1)"
    by (rule pow2_mono) simp
  finally show ?thesis .
qed

lemma to_double_finite:
  assumes "\<bar>x\<bar> < 2 powi 1024 - 2 powi 970"
  shows "\<exists>p. to_double x = Finite p"
proof (cases "x = 0")
  case True
  then show ?thesis by (simp add: to_double_def)
next
  case False
  define a :: real where "a = \<bar>x\<bar>"
  define e where "e = max (expo a) (- 1022)"
  define y :: real where "y = of_int (round_half_even (a / 2 powi (e - 52))) * 2 powi (e - 52)"
  from False have a: "0 < a" by (simp add: a_def)
  from assms have "a < 2 powi 1024" by (simp add: a_def)
  from expo_less [OF a this] have e: "e \<le> 1023" by (simp add: e_def)
  have top: "a < 2 powi (e + 1)" unfolding e_def by (rule below_binade_top [OF a])
  have "y < 2 powi 1024"
  proof (cases "e = 1023")
    case True
    have "a / 2 powi 971 < of_int (2 ^ 53 - 1) + 1 / 2"
      using assms by (simp add: a_def field_simps)
    moreover from round_half_even_near [of "a / 2 powi 971"]
    have "of_int (round_half_even (a / 2 powi 971)) \<le> a / 2 powi 971 + 1 / 2" by linarith
    ultimately have "(of_int (round_half_even (a / 2 powi 971)) :: real) < of_int (2 ^ 53 - 1) + 1"
      by linarith
    then have "(of_int (round_half_even (a / 2 powi 971)) :: real) < of_int (2 ^ 53)"
      by simp
    then have "round_half_even (a / 2 powi 971) < 2 ^ 53" by (simp only: of_int_less_iff)
    then have "round_half_even (a / 2 powi 971) \<le> 2 ^ 53 - 1" by simp
    then have "(of_int (round_half_even (a / 2 powi 971)) :: real) \<le> of_int (2 ^ 53 - 1)"
      by (simp only: of_int_le_iff)
    then have "of_int (round_half_even (a / 2 powi 971)) * 2 powi 971 \<le> (2 ^ 53 - 1) * (2::real) powi 971"
      by simp
    also have "\<dots> < 2 powi 1024" by simp
    finally show ?thesis using True by (simp add: y_def)
  next
    case False
    with e have "e + 1 \<le> 1023" by simp
    from rounded_le [OF a top] have "y \<le> 2 powi (e + 1)" by (simp add: y_def)
    also have "\<dots> \<le> 2 powi 1023" by (rule pow2_mono) fact
    also have "\<dots> < (2::real) powi 1024" by simp
    finally show ?thesis .
  qed
  with to_double_cases [OF \<open>x \<noteq> 0\<close>] show ?thesis
    by (simp add: y_def e_def a_def)
qed

lemma to_double_finite_bound:
  assumes "to_double x = Finite p"
  shows "\<bar>p\<bar> \<le> 2 powi 1024 - 2 powi 971"
proof (cases "x = 0")
  case True
  with assms show ?thesis by (simp add: to_double_def)
next
  case False
  define a :: real where "a = \<bar>x\<bar>"
  define e where "e = max (expo a) (- 1022)"
  define m where "m = round_half_even (a / 2 powi (e - 52))"
  define y :: real where "y = of_int m * 2 powi (e - 52)"
  from False have a: "0 < a" by (simp add: a_def)
  from assms to_double_cases [OF False]
  have fin: "y < 2 powi 1024" and p: "p = (if 0 < x then y else - y)"
    by (simp_all add: y_def m_def e_def a_def split: if_splits)
  have top: "a < 2 powi (e + 1)" unfolding e_def by (rule below_binade_top [OF a])
  have "0 \<le> a / 2 powi (e - 52)" using a by simp
  then have "of_int 0 \<le> a / 2 powi (e - 52)" by simp
  then have "0 \<le> m" unfolding m_def by (rule round_half_even_ge)
  then have y0: "0 \<le> y" by (simp add: y_def)
  have "y \<le> 2 powi 1024 - 2 powi 971"
  proof (cases "e \<le> 1022")
    case True
    then have "e + 1 \<le> 1023" by simp
    from rounded_le [OF a top] have "y \<le> 2 powi (e + 1)" by (simp add: y_def m_def)
    also have "\<dots> \<le> 2 powi 1023" by (rule pow2_mono) fact
    also have "\<dots> \<le> (2::real) powi 1024 - 2 powi 971" by simp
    finally show ?thesis .
  next
    case False
    show ?thesis
    proof (cases "e = 1023")
      case True
      from fin have "of_int m * (2::real) powi 971 < 2 ^ 53 * 2 powi 971"
        using True by (simp add: y_def)
      then have "(of_int m :: real) < 2 ^ 53" by simp
      then have "(of_int m :: real) < of_int (2 ^ 53)" by simp
      then have "m < 2 ^ 53" by (simp only: of_int_less_iff)
      then have "m \<le> 2 ^ 53 - 1" by simp
      then have "(of_int m :: real) \<le> of_int (2 ^ 53 - 1)" by (simp only: of_int_le_iff)
      then have "of_int m * (2::real) powi 971 \<le> (2 ^ 53 - 1) * 2 powi 971" by simp
      also have "\<dots> = (2::real) powi 1024 - 2 powi 971" by simp
      finally show ?thesis using True by (simp add: y_def)
    next
      case ne: False
      with False have big: "1024 \<le> e" by simp
      then have "e = expo a" by (simp add: e_def max_def split: if_splits)
      with expo_bounds [OF a] have "2 powi e \<le> a" by simp
      from rounded_ge [OF this] have "2 powi e \<le> y" by (simp add: y_def m_def)
      moreover have "(2::real) powi 1024 \<le> 2 powi e" by (rule pow2_mono) fact
      ultimately show ?thesis using fin by linarith
    qed
  qed
  with y0 p show ?thesis by (cases "0 < x") simp_all
qed

subsection \<open>C4\<close>

text \<open>
  C4. The semantic matcher lists the stored questions whose similarity to the input is
  strictly above 0.7, in the order of the collection. With unique identifiers, a stored
  question is among the results exactly when its similarity exceeds 0.7; a question
  whose similarity is exactly 0.7 is not among them.
\<close>

theorem check_similarity_threshold:
  assumes "distinct (map oid db)" and "q \<in> set db"
  shows "map m_id (similar_questions (check_similarity nlp similarity db t))
           = map (\<lambda>q. str (oid q)) (filter (\<lambda>q. 0.7 < similarity (nlp t) (nlp (qtext q))) db) \<and>
         (str (oid q) \<in> m_id ` set (similar_questions (check_similarity nlp similarity db t))
            \<longleftrightarrow> 0.7 < similarity (nlp t) (nlp (qtext q))) \<and>
         (similarity (nlp t) (nlp (qtext q)) = 0.7 \<longrightarrow>
            str (oid q) \<notin> m_id ` set (similar_questions (check_similarity nlp similarity db t)))"
proof -
  let ?P = "\<lambda>q. 0.7 < similarity (nlp t) (nlp (qtext q))"
  have ids: "map m_id (similar_questions (check_similarity nlp similarity db t))
           = map (\<lambda>q. str (oid q)) (filter ?P db)"
    by (simp add: check_similarity_filter o_def)
  have inj: "\<And>q'. q' \<in> set db \<Longrightarrow> oid q' = oid q \<Longrightarrow> q' = q"
    using assms by (meson distinct_map inj_onD)
  have "set (map m_id (similar_questions (check_similarity nlp similarity db t)))
          = set (map (\<lambda>q. str (oid q)) (filter ?P db))"
    using ids by simp
  then have "m_id ` set (similar_questions (check_similarity nlp similarity db t))
          = (\<lambda>q. str (oid q)) ` {q \<in> set db. ?P q}"
    by simp
  then have iff: "str (oid q) \<in> m_id ` set (similar_questions (check_similarity nlp similarity db t))
            \<longleftrightarrow> ?P q"
    using inj assms(2) by (auto simp: str_inject)
  from ids iff show ?thesis by simp
qed

theorem check_similarity_threshold_witness:
  "map m_id (similar_questions (check_similarity id
       (\<lambda>a b. if b = ''y'' then 0.7 else if b = ''z'' then 0.71 else 0.3)
       [\<lparr>oid = Oid ''a1'', qtext = ''y'', created_at = 1\<rparr>,
        \<lparr>oid = Oid ''a2'', qtext = ''z'', created_at = 2\<rparr>] ''x'')) = [''a2''] \<and>
   ''a1'' \<notin> m_id ` set (similar_questions (check_similarity id
       (\<lambda>a b. if b = ''y'' then 0.7 else if b = ''z'' then 0.71 else 0.3)
       [\<lparr>oid = Oid ''a1'', qtext = ''y'', created_at = 1\<rparr>,
        \<lparr>oid = Oid ''a2'', qtext = ''z'', created_at = 2\<rparr>] ''x''))"
proof -
  let ?db = "[\<lparr>oid = Oid ''a1'', qtext = ''y'', created_at = 1\<rparr>,
        \<lparr>oid = Oid ''a2'', qtext = ''z'', created_at = 2\<rparr>]"
  have d: "distinct (map oid ?db)" by simp
  have m: "\<lparr>oid = Oid ''a1'', qtext = ''y'', created_at = 1\<rparr> \<in> set ?db" by simp
  from check_similarity_threshold [OF d m, of id
      "\<lambda>a b. if b = ''y'' then 0.7 else if b = ''z'' then 0.71 else 0.3" "''x''"]
  show ?thesis by simp
qed

subsection \<open>C5\<close>

text \<open>
  C5. Every result of the semantic matcher comes from a stored question whose
  similarity \<open>s\<close> to the input is above 0.7, and its score is the value of
  \<^verbatim>\<open>round(s * 100, 2)\<close> in double arithmetic: the product \<open>s * 100\<close>, rounded to a
  double \<open>p\<close> (at most \<open>2 ^ -53\<close> of its value away), then rounded to two decimal
  places, which gives a multiple \<open>k / 100\<close> of 0.01 at most 0.005 away from \<open>p\<close>, then
  converted to the nearest double \<open>v\<close> (again at most \<open>2 ^ -53\<close> of its value away).
  A finite product always gives a finite score; a product that overflows gives the score
  infinity.
\<close>

theorem check_similarity_score:
  "\<forall>r \<in> set (similar_questions (check_similarity nlp similarity db t)).
     \<exists>q \<in> set db.
        m_id r = str (oid q) \<and> m_text r = qtext q \<and> m_created_at r = created_at q \<and>
        0.7 < similarity (nlp t) (nlp (qtext q)) \<and>
        m_score r = py_round (float_mul (similarity (nlp t) (nlp (qtext q))) 100) 2 \<and>
        (float_mul (similarity (nlp t) (nlp (qtext q))) 100 = PosInf \<longrightarrow> m_score r = PosInf) \<and>
        (\<forall>p. float_mul (similarity (nlp t) (nlp (qtext q))) 100 = Finite p \<longrightarrow>
           \<bar>p - similarity (nlp t) (nlp (qtext q)) * 100\<bar>
             \<le> similarity (nlp t) (nlp (qtext q)) * 100 * 2 powi (- 53) \<and>
           (\<exists>k v. m_score r = Finite v \<and> to_double (of_int k / 100) = Finite v \<and>
                  \<bar>of_int k / 100 - p\<bar> \<le> 1 / 200 \<and>
                  \<bar>v - of_int k / 100\<bar> \<le> of_int k / 100 * 2 powi (- 53)))"
proof
  fix r
  assume "r \<in> set (similar_questions (check_similarity nlp similarity db t))"
  then obtain q where q: "q \<in> set db" "0.7 < similarity (nlp t) (nlp (qtext q))"
    and r: "r = \<lparr>m_id = str (oid q), m_text = qtext q, m_created_at = created_at q,
                m_score = py_round (float_mul (similarity (nlp t) (nlp (qtext q))) 100) 2\<rparr>"
    unfolding check_similarity_filter by auto
  define s where "s = similarity (nlp t) (nlp (qtext q))"
  have s: "7 / 10 < s" using q(2) by (simp add: s_def)
  have sc: "m_score r = py_round (float_mul s 100) 2" by (simp add: r s_def)
  have inf: "float_mul s 100 = PosInf \<longrightarrow> m_score r = PosInf"
    by (simp add: sc)
  have fin: "\<bar>p - s * 100\<bar> \<le> s * 100 * 2 powi (- 53) \<and>
           (\<exists>k v. m_score r = Finite v \<and> to_double (of_int k / 100) = Finite v \<and>
                  \<bar>of_int k / 100 - p\<bar> \<le> 1 / 200 \<and>
                  \<bar>v - of_int k / 100\<bar> \<le> of_int k / 100 * 2 powi (- 53))"
    if p: "float_mul s 100 = Finite p" for p
  proof -
    from p have tp: "to_double (s * 100) = Finite p" by (simp add: float_mul_def)
    have small: "(2::real) powi (- 1022) \<le> 1"
      using pow2_mono [of "- 1022" 0] by simp
    have "2 powi (- 1022) \<le> \<bar>s * 100\<bar>" using s small by linarith
    from to_double_rel_error [OF tp this] s
    have e1: "\<bar>p - s * 100\<bar> \<le> s * 100 * 2 powi (- 53)" by simp
    have "s * 100 * 2 powi (- 53) \<le> s * 100 * (1 / 2)" using s by simp
    with e1 s have p35: "35 < p" by linarith
    define k where "k = round_half_even (p * 10 ^ 2)"
    have "\<bar>of_int k - p * 100\<bar> \<le> 1 / 2"
      using round_half_even_near [of "p * 100"] by (simp add: k_def)
    then have e2: "\<bar>of_int k / 100 - p\<bar> \<le> 1 / 200" by linarith
    with p35 have k34: "34 < (of_int k :: real) / 100" by linarith
    from to_double_finite_bound [OF tp] have "\<bar>p\<bar> \<le> 2 powi 1024 - 2 powi 971" .
    moreover have "(2::real) powi 1024 - 2 powi 971 + 1 / 200 < 2 powi 1024 - 2 powi 970"
      by simp
    ultimately have "\<bar>of_int k / 100\<bar> < (2::real) powi 1024 - 2 powi 970"
      using e2 by linarith
    from to_double_finite [OF this] obtain v where v: "to_double (of_int k / 100) = Finite v"
      by blast
    have "2 powi (- 1022) \<le> \<bar>(of_int k :: real) / 100\<bar>" using k34 small by linarith
    from to_double_rel_error [OF v this] k34
    have e3: "\<bar>v - of_int k / 100\<bar> \<le> of_int k / 100 * 2 powi (- 53)" by simp
    have "m_score r = Finite v" using sc p v by (simp add: k_def)
    with v e1 e2 e3 show ?thesis by blast
  qed
  show "\<exists>q \<in> set db.
        m_id r = str (oid q) \<and> m_text r = qtext q \<and> m_created_at r = created_at q \<and>
        0.7 < similarity (nlp t) (nlp (qtext q)) \<and>
        m_score r = py_round (float_mul (similarity (nlp t) (nlp (qtext q))) 100) 2 \<and>
        (float_mul (similarity (nlp t) (nlp (qtext q))) 100 = PosInf \<longrightarrow> m_score r = PosInf) \<and>
        (\<forall>p. float_mul (similarity (nlp t) (nlp (qtext q))) 100 = Finite p \<longrightarrow>
           \<bar>p - similarity (nlp t) (nlp (qtext q)) * 100\<bar>
             \<le> similarity (nlp t) (nlp (qtext q)) * 100 * 2 powi (- 53) \<and>
           (\<exists>k v. m_score r = Finite v \<and> to_double (of_int k / 100) = Finite v \<and>
                  \<bar>of_int k / 100 - p\<bar> \<le> 1 / 200 \<and>
                  \<bar>v - of_int k / 100\<bar> \<le> of_int k / 100 * 2 powi (- 53)))"
  proof (rule bexI [OF _ q(1)], intro conjI)
    show "m_id r = str (oid q)" "m_text r = qtext q" "m_created_at r = created_at q"
      by (simp_all add: r)
    show "0.7 < similarity (nlp t) (nlp (qtext q))" by (rule q(2))
    show "m_score r = py_round (float_mul (similarity (nlp t) (nlp (qtext q))) 100) 2"
      by (simp add: r)
    show "float_mul (similarity (nlp t) (nlp (qtext q))) 100 = PosInf \<longrightarrow> m_score r = PosInf"
      using inf by (simp only: s_def)
    show "\<forall>p. float_mul (similarity (nlp t) (nlp (qtext q))) 100 = Finite p \<longrightarrow>
           \<bar>p - similarity (nlp t) (nlp (qtext q)) * 100\<bar>
             \<le> similarity (nlp t) (nlp (qtext q)) * 100 * 2 powi (- 53) \<and>
           (\<exists>k v. m_score r = Finite v \<and> to_double (of_int k / 100) = Finite v \<and>
                  \<bar>of_int k / 100 - p\<bar> \<le> 1 / 200 \<and>
                  \<bar>v - of_int k / 100\<bar> \<le> of_int k / 100 * 2 powi (- 53))"
      using fin unfolding s_def by blast
  qed
qed

text \<open>
  An example: the similarity is the double nearest to 0.70125, which is
  \<open>6316298477387121 / 2 ^ 53\<close> and a little above 0.70125. Its product with 100 rounds
  to the double 70.125, a tie, so the score is the double nearest to 70.12, which is
  \<open>616782042717225 / 2 ^ 43\<close> (rounding the exact product would give 70.13).
\<close>

theorem check_similarity_score_witness:
  "similar_questions (check_similarity id (\<lambda>a b. 6316298477387121 / 9007199254740992)
       [\<lparr>oid = Oid ''a1'', qtext = ''y'', created_at = 1\<rparr>] ''x'') \<noteq> [] \<and>
   m_score (hd (similar_questions (check_similarity id
       (\<lambda>a b. 6316298477387121 / 9007199254740992)
       [\<lparr>oid = Oid ''a1'', qtext = ''y'', created_at = 1\<rparr>] ''x'')))
     = Finite (616782042717225 / 8796093022208)"
proof -
  let ?rs = "similar_questions (check_similarity id
       (\<lambda>a b. 6316298477387121 / 9007199254740992)
       [\<lparr>oid = Oid ''a1'', qtext = ''y'', created_at = 1\<rparr>] ''x'')"
  have p: "py_round (float_mul (6316298477387121 / 9007199254740992) 100) 2
             = Finite (616782042717225 / 8796093022208)"
    by code_simp
  have ne: "?rs \<noteq> []"
    by (simp add: check_similarity_def)
  then have "hd ?rs \<in> set ?rs" by (rule hd_in_set)
  with check_similarity_score [of id "\<lambda>a b. 6316298477387121 / 9007199254740992"
      "[\<lparr>oid = Oid ''a1'', qtext = ''y'', created_at = 1\<rparr>]" "''x''"]
  have "m_score (hd ?rs) = py_round (float_mul (6316298477387121 / 9007199254740992) 100) 2"
    by blast
  with p ne show ?thesis by simp
qed

section \<open>Properties of the lexical matcher\<close>

lemma lexical_loop_filter:
  "lexical_loop cursor filtered_results =
     filtered_results @
       map (\<lambda>h. \<lparr>l_id = str (h_id h), l_text = h_text h, l_created_at = h_created_at h,
                  l_score = h_score h\<rparr>)
           (filter (\<lambda>h. 2.5 < get_score h) cursor)"
  by (induction cursor arbitrary: filtered_results) simp_all

lemma get_score_above:
  "2.5 < get_score h \<longleftrightarrow> (case h_score h of None \<Rightarrow> False | Some s \<Rightarrow> 2.5 < s)"
  by (simp add: get_score_def split: option.split)

subsection \<open>C6\<close>

text \<open>
  C6. The lexical matcher returns exactly the hits of the text search whose score is
  strictly above 2.5, in the order of the search, with the identifier as a string, and
  counts them. A hit without a score field counts as score 0 and is left out.
\<close>

theorem check_similarity_2_threshold:
  "similar_questions (check_similarity_2 text_search db t) =
     map (\<lambda>h. \<lparr>l_id = str (h_id h), l_text = h_text h, l_created_at = h_created_at h,
                l_score = h_score h\<rparr>)
         (filter (\<lambda>h. case h_score h of None \<Rightarrow> False | Some s \<Rightarrow> 2.5 < s)
                 (text_search db t)) \<and>
   similarity_count (check_similarity_2 text_search db t) =
     length (filter (\<lambda>h. case h_score h of None \<Rightarrow> False | Some s \<Rightarrow> 2.5 < s)
                    (text_search db t))"
proof -
  have eq: "filter (\<lambda>h. 2.5 < get_score h) (text_search db t) =
        filter (\<lambda>h. case h_score h of None \<Rightarrow> False | Some s \<Rightarrow> 2.5 < s) (text_search db t)"
    by (simp only: get_score_above)
  show ?thesis
    unfolding check_similarity_2_def Let_def lexical_loop_filter eq by simp
qed

theorem check_similarity_2_threshold_witness:
  "check_similarity_2
     (\<lambda>db t. [\<lparr>h_id = Oid ''a1'', h_text = ''x y'', h_created_at = 1, h_score = Some 3.0\<rparr>,
              \<lparr>h_id = Oid ''a2'', h_text = ''x'', h_created_at = 2, h_score = Some 2.0\<rparr>,
              \<lparr>h_id = Oid ''a3'', h_text = ''x z'', h_created_at = 3, h_score = None\<rparr>,
              \<lparr>h_id = Oid ''a4'', h_text = ''x w'', h_created_at = 4, h_score = Some 2.5\<rparr>])
     [] ''x''
   = \<lparr>similar_questions =
        [\<lparr>l_id = ''a1'', l_text = ''x y'', l_created_at = 1, l_score = Some 3.0\<rparr>],
      similarity_count = 1\<rparr>"
  using check_similarity_2_threshold
    [of "\<lambda>db t. [\<lparr>h_id = Oid ''a1'', h_text = ''x y'', h_created_at = 1, h_score = Some 3.0\<rparr>,
              \<lparr>h_id = Oid ''a2'', h_text = ''x'', h_created_at = 2, h_score = Some 2.0\<rparr>,
              \<lparr>h_id = Oid ''a3'', h_text = ''x z'', h_created_at = 3, h_score = None\<rparr>,
              \<lparr>h_id = Oid ''a4'', h_text = ''x w'', h_created_at = 4, h_score = Some 2.5\<rparr>]"
        "[]" "''x''"]
  by (cases "check_similarity_2
     (\<lambda>db t. [\<lparr>h_id = Oid ''a1'', h_text = ''x y'', h_created_at = 1, h_score = Some 3.0\<rparr>,
              \<lparr>h_id = Oid ''a2'', h_text = ''x'', h_created_at = 2, h_score = Some 2.0\<rparr>,
              \<lparr>h_id = Oid ''a3'', h_text = ''x z'', h_created_at = 3, h_score = None\<rparr>,
              \<lparr>h_id = Oid ''a4'', h_text = ''x w'', h_created_at = 4, h_score = Some 2.5\<rparr>])
     [] ''x''") simp

section \<open>Properties of the word-overlap counter\<close>

lemma words_loop_count:
  "words_loop isspace lower input_words db count =
     count + length (filter (\<lambda>q. input_words \<inter> words isspace lower (qtext q) \<noteq> {}) db)"
  by (induction db arbitrary: count) (simp_all add: Let_def)

lemma words_empty: "words isspace lower [] = {}"
  by (simp add: words_def py_split_def)

text \<open>\<^verbatim>\<open>split()\<close> yields exactly the whitespace-delimited tokens.\<close>

lemma token_nospace:
  assumes "\<forall>c\<in>set u. \<not> sp c"
  shows "is_token sp u w \<longleftrightarrow> w = u \<and> u \<noteq> []"
proof
  assume "is_token sp u w"
  then obtain a b where w: "w \<noteq> []" and u: "u = a @ w @ b"
    and ba: "a = [] \<or> sp (last a)" and bb: "b = [] \<or> sp (hd b)"
    unfolding is_token_def by blast
  have "a = []"
  proof (rule ccontr)
    assume "a \<noteq> []"
    then have "last a \<in> set u" using u by simp
    with assms ba \<open>a \<noteq> []\<close> show False by blast
  qed
  moreover have "b = []"
  proof (rule ccontr)
    assume "b \<noteq> []"
    then have "hd b \<in> set u" using u by simp
    with assms bb \<open>b \<noteq> []\<close> show False by blast
  qed
  ultimately show "w = u \<and> u \<noteq> []" using u w by simp
next
  assume wu: "w = u \<and> u \<noteq> []"
  have "u = [] @ u @ []" by simp
  with wu assms show "is_token sp u w"
    unfolding is_token_def by blast
qed

lemma token_space_Cons:
  assumes "sp c"
  shows "is_token sp (c # s) w \<longleftrightarrow> is_token sp s w"
proof
  assume "is_token sp (c # s) w"
  then obtain a b where w: "w \<noteq> []" and nw: "\<forall>x\<in>set w. \<not> sp x" and s: "c # s = a @ w @ b"
    and ba: "a = [] \<or> sp (last a)" and bb: "b = [] \<or> sp (hd b)"
    unfolding is_token_def by blast
  have "a \<noteq> []"
  proof
    assume "a = []"
    with s w have "hd w = c" by (cases w) auto
    with w nw assms show False by (cases w) auto
  qed
  then obtain a' where a: "a = c # a'" using s by (cases a) auto
  with s have s': "s = a' @ w @ b" by simp
  from a ba have "a' = [] \<or> sp (last a')" by (cases "a' = []") auto
  with w nw s' bb show "is_token sp s w"
    unfolding is_token_def by blast
next
  assume "is_token sp s w"
  then obtain a b where w: "w \<noteq> []" and nw: "\<forall>x\<in>set w. \<not> sp x" and s: "s = a @ w @ b"
    and ba: "a = [] \<or> sp (last a)" and bb: "b = [] \<or> sp (hd b)"
    unfolding is_token_def by blast
  from s have "c # s = (c # a) @ w @ b" by simp
  moreover from ba assms have "c # a = [] \<or> sp (last (c # a))" by auto
  ultimately show "is_token sp (c # s) w"
    unfolding is_token_def using w nw bb by blast
qed

lemma token_word_space:
  assumes u: "u \<noteq> []" and nu: "\<forall>x\<in>set u. \<not> sp x" and c: "sp c"
  shows "is_token sp (u @ c # s) w \<longleftrightarrow> w = u \<or> is_token sp s w"
proof
  assume "is_token sp (u @ c # s) w"
  then obtain a b where w: "w \<noteq> []" and nw: "\<forall>x\<in>set w. \<not> sp x"
    and s: "u @ c # s = a @ w @ b"
    and ba: "a = [] \<or> sp (last a)" and bb: "b = [] \<or> sp (hd b)"
    unfolding is_token_def by blast
  from s consider us where "u = a @ us" "us @ c # s = w @ b"
    | us where "u @ us = a" "c # s = us @ w @ b"
    by (auto simp: append_eq_append_conv2)
  then show "w = u \<or> is_token sp s w"
  proof cases
    case 1
    have "a = []"
    proof (rule ccontr)
      assume "a \<noteq> []"
      then have "last a \<in> set u" using 1(1) by simp
      with nu ba \<open>a \<noteq> []\<close> show False by blast
    qed
    with 1 have e: "u @ c # s = w @ b" by simp
    then consider vs where "u = w @ vs" "vs @ c # s = b"
      | vs where "u @ vs = w" "c # s = vs @ b"
      by (auto simp: append_eq_append_conv2)
    then have "w = u"
    proof cases
      case 1
      show ?thesis
      proof (cases "vs = []")
        case True
        with 1 show ?thesis by simp
      next
        case False
        then have "hd b = hd vs" "b \<noteq> []" "hd vs \<in> set u" using 1 by auto
        with nu bb show ?thesis by auto
      qed
    next
      case 2
      show ?thesis
      proof (cases "vs = []")
        case True
        with 2 show ?thesis by simp
      next
        case False
        then have "hd vs = c" using 2(2) by (cases vs) auto
        with False have "c \<in> set w" using 2(1) by (cases vs) auto
        with nw c show ?thesis by blast
      qed
    qed
    then show ?thesis ..
  next
    case 2
    have "us \<noteq> []"
    proof
      assume "us = []"
      with 2(2) w have "hd w = c" by (cases w) auto
      with w nw c show False by (cases w) auto
    qed
    then obtain us' where us: "us = c # us'" using 2(2) by (cases us) auto
    with 2(2) have s': "s = us' @ w @ b" by simp
    have "us' = [] \<or> sp (last us')"
    proof (cases "us' = []")
      case True
      then show ?thesis ..
    next
      case False
      then have "last a = last us'" "a \<noteq> []" using 2(1) us by auto
      with ba show ?thesis by auto
    qed
    with w nw s' bb have "is_token sp s w"
      unfolding is_token_def by blast
    then show ?thesis ..
  qed
next
  assume "w = u \<or> is_token sp s w"
  then show "is_token sp (u @ c # s) w"
  proof
    assume "w = u"
    have "u @ c # s = [] @ u @ (c # s)" by simp
    moreover have "c # s = [] \<or> sp (hd (c # s))" using c by simp
    ultimately show ?thesis
      unfolding is_token_def using \<open>w = u\<close> u nu by blast
  next
    assume "is_token sp s w"
    then obtain a b where w: "w \<noteq> []" and nw: "\<forall>x\<in>set w. \<not> sp x" and s: "s = a @ w @ b"
      and ba: "a = [] \<or> sp (last a)" and bb: "b = [] \<or> sp (hd b)"
      unfolding is_token_def by blast
    from s have "u @ c # s = (u @ c # a) @ w @ b" by simp
    moreover from ba c have "u @ c # a = [] \<or> sp (last (u @ c # a))" by auto
    ultimately show ?thesis
      unfolding is_token_def using w nw bb by blast
  qed
qed

lemma split_from_tokens:
  "\<forall>x\<in>set word. \<not> sp x \<Longrightarrow>
     w \<in> set (split_from sp word cs) \<longleftrightarrow> is_token sp (word @ cs) w"
proof (induction cs arbitrary: word)
  case Nil
  then show ?case by (auto simp: token_nospace)
next
  case (Cons c cs)
  show ?case
  proof (cases "sp c")
    case True
    show ?thesis
    proof (cases "word = []")
      case True
      with \<open>sp c\<close> Cons.IH [of "[]"] show ?thesis
        by (simp add: token_space_Cons)
    next
      case False
      with \<open>sp c\<close> Cons.IH [of "[]"] Cons.prems show ?thesis
        by (auto simp: token_word_space)
    qed
  next
    case False
    with Cons.prems have "\<forall>x\<in>set (word @ [c]). \<not> sp x" by simp
    from Cons.IH [OF this] False show ?thesis by simp
  qed
qed

lemma py_split_tokens: "w \<in> set (py_split sp s) \<longleftrightarrow> is_token sp s w"
  using split_from_tokens [of "[]" sp w s] by (simp add: py_split_def)

lemma words_meet:
  "words sp lower s \<inter> words sp lower s' \<noteq> {} \<longleftrightarrow>
     (\<exists>w. is_token sp s w \<and> (\<exists>v. is_token sp s' v \<and> lower w = lower v))"
proof -
  have "words sp lower s \<inter> words sp lower s' \<noteq> {} \<longleftrightarrow>
      (\<exists>x. x \<in> lower ` set (py_split sp s) \<and> x \<in> lower ` set (py_split sp s'))"
    unfolding words_def set_map by blast
  also have "\<dots> \<longleftrightarrow>
      (\<exists>w. w \<in> set (py_split sp s) \<and> (\<exists>v. v \<in> set (py_split sp s') \<and> lower w = lower v))"
    by blast
  finally show ?thesis
    by (simp only: py_split_tokens)
qed

subsection \<open>C7\<close>

text \<open>
  C7. The word-overlap count is the number of stored questions that share a token with
  the input after lower-casing: questions for which some whitespace-delimited token of
  the input and some whitespace-delimited token of the question's text have the same
  lower-cased form. A stored question adds at most 1, so the count is at most the size
  of the collection, and the empty input gives 0.
\<close>

theorem check_words_count:
  "match_count (check_words isspace lower db t) =
     length (filter (\<lambda>q. \<exists>w. is_token isspace t w \<and>
                        (\<exists>v. is_token isspace (qtext q) v \<and> lower w = lower v)) db) \<and>
   match_count (check_words isspace lower db t) \<le> length db \<and>
   match_count (check_words isspace lower db []) = 0"
proof -
  have "match_count (check_words isspace lower db t) =
      length (filter (\<lambda>q. words isspace lower t \<inter> words isspace lower (qtext q) \<noteq> {}) db)"
    by (simp add: check_words_def Let_def words_loop_count)
  then have c: "match_count (check_words isspace lower db t) =
     length (filter (\<lambda>q. \<exists>w. is_token isspace t w \<and>
                        (\<exists>v. is_token isspace (qtext q) v \<and> lower w = lower v)) db)"
    by (simp only: words_meet)
  then have "match_count (check_words isspace lower db t) \<le> length db"
    by simp
  moreover have "match_count (check_words isspace lower db []) = 0"
    by (simp add: check_words_def Let_def words_loop_count words_empty)
  ultimately show ?thesis using c by blast
qed

theorem check_words_count_witness:
  "match_count (check_words ascii_isspace ascii_lower
     [\<lparr>oid = Oid ''a1'', qtext = ''beta gamma'', created_at = 1\<rparr>,
      \<lparr>oid = Oid ''a2'', qtext = ''gamma delta'', created_at = 2\<rparr>] ''Alpha Beta'') = 1"
proof -
  from check_words_count [of ascii_isspace ascii_lower
     "[\<lparr>oid = Oid ''a1'', qtext = ''beta gamma'', created_at = 1\<rparr>,
      \<lparr>oid = Oid ''a2'', qtext = ''gamma delta'', created_at = 2\<rparr>]" "''Alpha Beta''"]
  have "match_count (check_words ascii_isspace ascii_lower
     [\<lparr>oid = Oid ''a1'', qtext = ''beta gamma'', created_at = 1\<rparr>,
      \<lparr>oid = Oid ''a2'', qtext = ''gamma delta'', created_at = 2\<rparr>] ''Alpha Beta'') =
    length (filter (\<lambda>q. \<exists>w. is_token ascii_isspace ''Alpha Beta'' w \<and>
                        (\<exists>v. is_token ascii_isspace (qtext q) v \<and> ascii_lower w = ascii_lower v))
     [\<lparr>oid = Oid ''a1'', qtext = ''beta gamma'', created_at = 1\<rparr>,
      \<lparr>oid = Oid ''a2'', qtext = ''gamma delta'', created_at = 2\<rparr>])"
    by (rule conjunct1)
  also have "\<dots> =
    length (filter (\<lambda>q. words ascii_isspace ascii_lower ''Alpha Beta''
                              \<inter> words ascii_isspace ascii_lower (qtext q) \<noteq> {})
     [\<lparr>oid = Oid ''a1'', qtext = ''beta gamma'', created_at = 1\<rparr>,
      \<lparr>oid = Oid ''a2'', qtext = ''gamma delta'', created_at = 2\<rparr>])"
    by (simp only: words_meet)
  also have "\<dots> = 1"
    by code_simp
  finally show ?thesis .
qed

section \<open>The matchers on an empty collection\<close>

subsection \<open>C8\<close>

text \<open>
  C8. On the empty collection each of the three matchers returns no result and the
  count 0, for every input text. For the lexical matcher this rests on the store: its
  text search returns documents of the collection only.
\<close>

theorem matchers_empty_corpus:
  assumes "searches_collection text_search"
  shows "check_similarity nlp similarity [] t = \<lparr>similar_questions = [], similarity_count = 0\<rparr> \<and>
         check_similarity_2 text_search [] t = \<lparr>similar_questions = [], similarity_count = 0\<rparr> \<and>
         check_words isspace lower [] t = \<lparr>match_count = 0\<rparr>"
proof -
  from assms have "h_id ` set (text_search [] t) \<subseteq> oid ` set ([] :: collection)"
    unfolding searches_collection_def by (rule allE) (erule allE)
  then have "text_search [] t = []" by simp
  then show ?thesis
    by (simp add: check_similarity_def check_similarity_2_def check_words_def)
qed

theorem matchers_empty_corpus_witness:
  "check_similarity id (\<lambda>a b. 1) [] ''black hole''
     = \<lparr>similar_questions = [], similarity_count = 0\<rparr> \<and>
   check_similarity_2
     (\<lambda>db t. map (\<lambda>q. \<lparr>h_id = oid q, h_text = qtext q, h_created_at = created_at q,
                        h_score = Some 3\<rparr>) db) [] ''black hole''
     = \<lparr>similar_questions = [], similarity_count = 0\<rparr> \<and>
   check_words ascii_isspace ascii_lower [] ''black hole'' = \<lparr>match_count = 0\<rparr>"
proof -
  have s: "searches_collection
     (\<lambda>db t. map (\<lambda>q. \<lparr>h_id = oid q, h_text = qtext q, h_created_at = created_at q,
                        h_score = Some 3\<rparr>) db)"
    by (auto simp: searches_collection_def)
  from matchers_empty_corpus [OF s, of id "\<lambda>a b. 1" "''black hole''" ascii_isspace ascii_lower]
  show ?thesis .
qed

section \<open>Properties of deleting and creating\<close>

lemma delete_one_count: "snd (delete_one db i) = (if i \<in> oid ` set db then 1 else 0)"
  by (induction db) auto

lemma delete_one_absent: "i \<notin> oid ` set db \<Longrightarrow> fst (delete_one db i) = db"
  by (induction db) auto

lemma delete_one_length: "length (fst (delete_one db i)) + snd (delete_one db i) = length db"
  by (induction db) auto

subsection \<open>C9\<close>

text \<open>
  C9. Claim: for every identifier, deleting fails with not-found exactly when the
  store's deletion count is 0, and otherwise succeeds. The handler first builds an
  \<^verbatim>\<open>ObjectId\<close> from the path parameter, and for a string that is not an identifier
  that constructor raises \<^verbatim>\<open>InvalidId\<close>: the request for \<^verbatim>\<open>a3\<close> ends with that
  exception, which is neither the 404 answer nor a success, and the store is never
  asked.
\<close>

theorem delete_question_malformed_id_counterexample:
  "delete_question ObjectId_of_str
     [\<lparr>oid = Oid ''0123456789abcdef00000001'', qtext = ''x'', created_at = 1\<rparr>] ''a3''
   = (Inl InvalidId, [\<lparr>oid = Oid ''0123456789abcdef00000001'', qtext = ''x'', created_at = 1\<rparr>])"
  by (simp add: delete_question_def ObjectId_of_str_def)

text \<open>
  C9, as the code has it. A string that the \<^verbatim>\<open>ObjectId\<close> constructor refuses fails with
  \<^verbatim>\<open>InvalidId\<close> and leaves the collection alone. For a string that is an identifier,
  the answer is 404 ``Question not found'' exactly when the store reports a deletion
  count of 0, which is exactly when no record has the identifier; when the count is not
  0 the call succeeds and one record is gone. In every case an identifier that matches
  no record gives an error and an unchanged collection, never a success.
\<close>

theorem delete_question_not_found:
  "(mk_oid question_id = None \<longrightarrow>
        delete_question mk_oid db question_id = (Inl InvalidId, db)) \<and>
   (\<forall>i. mk_oid question_id = Some i \<longrightarrow>
        (fst (delete_question mk_oid db question_id)
           = Inl (HTTPException 404 ''Question not found'')
         \<longleftrightarrow> snd (delete_one db i) = 0) \<and>
        (snd (delete_one db i) = 0 \<longleftrightarrow> i \<notin> oid ` set db) \<and>
        (snd (delete_one db i) \<noteq> 0 \<longrightarrow>
           delete_question mk_oid db question_id
             = (Inr ''Question deleted successfully'', fst (delete_one db i)) \<and>
           length (fst (delete_one db i)) + 1 = length db)) \<and>
   ((\<forall>i. mk_oid question_id = Some i \<longrightarrow> i \<notin> oid ` set db) \<longrightarrow>
        (\<exists>e. fst (delete_question mk_oid db question_id) = Inl e) \<and>
        snd (delete_question mk_oid db question_id) = db)"
proof -
  have c1: "mk_oid question_id = None \<longrightarrow>
        delete_question mk_oid db question_id = (Inl InvalidId, db)"
    by (simp add: delete_question_def)
  have c2: "\<forall>i. mk_oid question_id = Some i \<longrightarrow>
        (fst (delete_question mk_oid db question_id)
           = Inl (HTTPException 404 ''Question not found'')
         \<longleftrightarrow> snd (delete_one db i) = 0) \<and>
        (snd (delete_one db i) = 0 \<longleftrightarrow> i \<notin> oid ` set db) \<and>
        (snd (delete_one db i) \<noteq> 0 \<longrightarrow>
           delete_question mk_oid db question_id
             = (Inr ''Question deleted successfully'', fst (delete_one db i)) \<and>
           length (fst (delete_one db i)) + 1 = length db)"
  proof (intro allI impI)
    fix i
    assume a: "mk_oid question_id = Some i"
    have p1: "fst (delete_question mk_oid db question_id)
           = Inl (HTTPException 404 ''Question not found'')
         \<longleftrightarrow> snd (delete_one db i) = 0"
      using a by (simp add: delete_question_def Let_def)
    have p2: "snd (delete_one db i) = 0 \<longleftrightarrow> i \<notin> oid ` set db"
      by (simp add: delete_one_count)
    have p3: "snd (delete_one db i) \<noteq> 0 \<longrightarrow>
           delete_question mk_oid db question_id
             = (Inr ''Question deleted successfully'', fst (delete_one db i)) \<and>
           length (fst (delete_one db i)) + 1 = length db"
    proof
      assume "snd (delete_one db i) \<noteq> 0"
      then have "snd (delete_one db i) = 1"
        by (simp add: delete_one_count split: if_splits)
      with delete_one_length [of db i] a
      show "delete_question mk_oid db question_id
             = (Inr ''Question deleted successfully'', fst (delete_one db i)) \<and>
           length (fst (delete_one db i)) + 1 = length db"
        by (simp add: delete_question_def Let_def)
    qed
    show "(fst (delete_question mk_oid db question_id)
           = Inl (HTTPException 404 ''Question not found'')
         \<longleftrightarrow> snd (delete_one db i) = 0) \<and>
        (snd (delete_one db i) = 0 \<longleftrightarrow> i \<notin> oid ` set db) \<and>
        (snd (delete_one db i) \<noteq> 0 \<longrightarrow>
           delete_question mk_oid db question_id
             = (Inr ''Question deleted successfully'', fst (delete_one db i)) \<and>
           length (fst (delete_one db i)) + 1 = length db)"
      by (rule conjI [OF p1 conjI [OF p2 p3]])
  qed
  have c3: "(\<forall>i. mk_oid question_id = Some i \<longrightarrow> i \<notin> oid ` set db) \<longrightarrow>
        (\<exists>e. fst (delete_question mk_oid db question_id) = Inl e) \<and>
        snd (delete_question mk_oid db question_id) = db"
    by (simp add: delete_question_def Let_def delete_one_count delete_one_absent
        split: option.split)
  show ?thesis
    by (rule conjI [OF c1 conjI [OF c2 c3]])
qed

theorem delete_question_not_found_witness:
  "fst (delete_question ObjectId_of_str
     [\<lparr>oid = Oid ''0123456789abcdef00000001'', qtext = ''x'', created_at = 1\<rparr>,
      \<lparr>oid = Oid ''0123456789abcdef00000002'', qtext = ''y'', created_at = 2\<rparr>]
     ''0123456789abcdef00000003'')
   = Inl (HTTPException 404 ''Question not found'') \<and>
   delete_question ObjectId_of_str
     [\<lparr>oid = Oid ''0123456789abcdef00000001'', qtext = ''x'', created_at = 1\<rparr>,
      \<lparr>oid = Oid ''0123456789abcdef00000002'', qtext = ''y'', created_at = 2\<rparr>]
     ''0123456789ABCDEF00000002''
   = (Inr ''Question deleted successfully'',
      [\<lparr>oid = Oid ''0123456789abcdef00000001'', qtext = ''x'', created_at = 1\<rparr>])"
proof -
  let ?db = "[\<lparr>oid = Oid ''0123456789abcdef00000001'', qtext = ''x'', created_at = 1\<rparr>,
      \<lparr>oid = Oid ''0123456789abcdef00000002'', qtext = ''y'', created_at = 2\<rparr>]"
  have m3: "ObjectId_of_str ''0123456789abcdef00000003'' = Some (Oid ''0123456789abcdef00000003'')"
    by code_simp
  have m2: "ObjectId_of_str ''0123456789ABCDEF00000002'' = Some (Oid ''0123456789abcdef00000002'')"
    by code_simp
  have d3: "snd (delete_one ?db (Oid ''0123456789abcdef00000003'')) = 0"
    by simp
  have d2: "delete_one ?db (Oid ''0123456789abcdef00000002'')
      = ([\<lparr>oid = Oid ''0123456789abcdef00000001'', qtext = ''x'', created_at = 1\<rparr>], 1)"
    by simp
  from delete_question_not_found [of ObjectId_of_str "''0123456789abcdef00000003''" ?db] m3 d3
  have "fst (delete_question ObjectId_of_str ?db ''0123456789abcdef00000003'')
      = Inl (HTTPException 404 ''Question not found'')"
    by blast
  moreover
  from delete_question_not_found [of ObjectId_of_str "''0123456789ABCDEF00000002''" ?db] m2 d2
  have "delete_question ObjectId_of_str ?db ''0123456789ABCDEF00000002''
      = (Inr ''Question deleted successfully'',
         [\<lparr>oid = Oid ''0123456789abcdef00000001'', qtext = ''x'', created_at = 1\<rparr>])"
    by simp
  ultimately show ?thesis by blast
qed

subsection \<open>C10\<close>

text \<open>
  C10. Creating a question reads the document count and does nothing with it: for a
  collection of any size the new record, with the identifier the driver generated for
  it, is appended, and the call returns it.
\<close>

theorem create_question_inserts:
  assumes "new_id \<notin> oid ` set db"
  shows "create_question db new_id utcnow t =
           Inr (db @ [\<lparr>oid = new_id, qtext = t, created_at = utcnow\<rparr>],
                \<lparr>q_id = str new_id, q_text = t, q_created_at = utcnow\<rparr>)"
  using assms by (simp add: create_question_def insert_one_def Let_def)

theorem create_question_inserts_witness:
  "count_documents
     (map (\<lambda>h. \<lparr>oid = Oid h, qtext = ''q'', created_at = 0\<rparr>)
        [''00'', ''01'', ''02'', ''03'', ''04'', ''05'', ''06'', ''07'', ''08'', ''09'', ''10'']) = 11 \<and>
   create_question
     (map (\<lambda>h. \<lparr>oid = Oid h, qtext = ''q'', created_at = 0\<rparr>)
        [''00'', ''01'', ''02'', ''03'', ''04'', ''05'', ''06'', ''07'', ''08'', ''09'', ''10''])
     (Oid ''11'') 5 ''q''
   = Inr (map (\<lambda>h. \<lparr>oid = Oid h, qtext = ''q'', created_at = 0\<rparr>)
            [''00'', ''01'', ''02'', ''03'', ''04'', ''05'', ''06'', ''07'', ''08'', ''09'', ''10'']
          @ [\<lparr>oid = Oid ''11'', qtext = ''q'', created_at = 5\<rparr>],
          \<lparr>q_id = ''11'', q_text = ''q'', q_created_at = 5\<rparr>)"
proof -
  have f: "Oid ''11'' \<notin> oid ` set (map (\<lambda>h. \<lparr>oid = Oid h, qtext = ''q'', created_at = 0\<rparr>)
        [''00'', ''01'', ''02'', ''03'', ''04'', ''05'', ''06'', ''07'', ''08'', ''09'', ''10''])"
    by simp
  from create_question_inserts [OF f, of 5 "''q''"] show ?thesis
    by (simp add: count_documents_def)
qed

end
